theory Spec2Isabelle
  imports Main
begin

section \<open>The routing trie of alien.go\<close>

text \<open>
  Strings are lists of single-byte characters, so the byte offset that Go's
  \<^verbatim>\<open>range\<close> loop yields is the position in the list, and a rune is a \<^typ>\<open>char\<close>.
  The terminal sentinel \<^verbatim>\<open>eof = rune(0)\<close> is the character with code 0.
\<close>

datatype error =
    errInsertOnNonRoot
  | errEmptyPattern
  | errMustStartWithSlash
  | errNonNodeSearch
  | errRouteNotFound
  | errBadPattern
  | errUnknownMethod

datatype Classify = NodeRoot | nodeParam | nodeNormal | nodeCatchAll | nodeEnd

record 'h Route =
  path :: string
  handler :: 'h
  middleware :: "('h \<Rightarrow> 'h) list"

text \<open>
  A \<^verbatim>\<open>*Node\<close> owns its children exclusively, so the trie is a tree. The field
  \<^verbatim>\<open>value\<close> is a pointer that may be nil; it is the selector \<^verbatim>\<open>val\<close>, since \<^verbatim>\<open>value\<close> is
  a keyword. The mutex carries no data.
\<close>

datatype 'h Node =
  Node (key: char) (val: "'h Route option") (classify: Classify) (children: "'h Node list")

definition eof :: char where
  "eof = CHR 0x00"

text \<open>
  \<^verbatim>\<open>branch\<close> appends a new child and returns it; the variadic \<^verbatim>\<open>classify\<close> is a list,
  and without it the child keeps the zero value \<^const>\<open>NodeRoot\<close>. The model returns
  the node as mutated together with the new child.
\<close>

definition Node_branch ::
  "'h Node \<Rightarrow> char \<Rightarrow> 'h Route option \<Rightarrow> Classify list \<Rightarrow> 'h Node \<times> 'h Node" where
  "Node_branch node k v cls =
     (let data = Node k v (case cls of [] \<Rightarrow> NodeRoot | c # _ \<Rightarrow> c) []
      in (Node (key node) (val node) (classify node) (children node @ [data]), data))"

fun findChild_loop :: "'h Node list \<Rightarrow> char \<Rightarrow> 'h Node option" where
  "findChild_loop [] k = None"
| "findChild_loop (v # vs) k = (if key v = k then Some v else findChild_loop vs k)"

definition Node_findChild :: "'h Node \<Rightarrow> char \<Rightarrow> 'h Node option" where
  "Node_findChild node k = findChild_loop (children node) k"

text \<open>
  \<^verbatim>\<open>insert\<close> moves the cursor \<^verbatim>\<open>level\<close> down the tree and mutates the node under it.
  In the tree model the child the cursor moved to is put back, as mutated, at its place
  in the parent: it is the first child with its key, either the one that \<^verbatim>\<open>findChild\<close>
  returned or the one that \<^verbatim>\<open>branch\<close> appended when there was none. The arguments
  \<^verbatim>\<open>n\<close> and \<^verbatim>\<open>index\<close> are \<^verbatim>\<open>len(pattern)\<close> and the offset of the character.
\<close>

fun store_child :: "'h Node list \<Rightarrow> char \<Rightarrow> 'h Node \<Rightarrow> 'h Node list" where
  "store_child [] k c = []"
| "store_child (v # vs) k c = (if key v = k then c # vs else v # store_child vs k c)"

definition with_child :: "'h Node \<Rightarrow> char \<Rightarrow> 'h Node \<Rightarrow> 'h Node" where
  "with_child node k c =
     Node (key node) (val node) (classify node) (store_child (children node) k c)"

definition classify_of :: "char \<Rightarrow> Classify" where
  "classify_of character =
     (if character = CHR '':'' then nodeParam
      else if character = CHR ''*'' then nodeCatchAll
      else nodeNormal)"

fun insert_loop :: "nat \<Rightarrow> nat \<Rightarrow> 'h Node \<Rightarrow> string \<Rightarrow> 'h Route option \<Rightarrow> 'h Node" where
  "insert_loop n index level [] v = fst (Node_branch level eof v [nodeEnd])"
| "insert_loop n index level (character # rest) v =
     (let child = Node_findChild level character in
      if classify level = nodeParam \<and> index < n \<and> character \<noteq> CHR ''/''
      then insert_loop n (Suc index) level rest v
      else (case child of
              Some c \<Rightarrow> with_child level character (insert_loop n (Suc index) c rest v)
            | None \<Rightarrow>
                (case Node_branch level character None [classify_of character] of
                   (level', data) \<Rightarrow>
                     with_child level' character (insert_loop n (Suc index) data rest v))))"

text \<open>
  \<^verbatim>\<open>insert\<close> returns the node as it is after the call and the error, if any.
\<close>

definition Node_insert :: "'h Node \<Rightarrow> string \<Rightarrow> 'h Route option \<Rightarrow> 'h Node \<times> error option" where
  "Node_insert node pattern v =
     (if classify node \<noteq> NodeRoot then (node, Some errInsertOnNonRoot)
      else if pattern = [] then (node, Some errEmptyPattern)
      else if hd pattern \<noteq> CHR ''/'' then (node, Some errMustStartWithSlash)
      else (insert_loop (length pattern) 0 node pattern v, None))"

text \<open>
  The scan of \<^verbatim>\<open>find\<close>: \<^term>\<open>Inl errRouteNotFound\<close> is the return inside the loop,
  \<^term>\<open>Inr level\<close> the cursor when the loop ends or breaks.
\<close>

fun find_loop :: "nat \<Rightarrow> nat \<Rightarrow> 'h Node \<Rightarrow> bool \<Rightarrow> string \<Rightarrow> error + 'h Node" where
  "find_loop n k level isParam [] = Inr level"
| "find_loop n k level isParam (ch # rest) =
     (let c = Node_findChild level ch in
      if isParam \<and> k < n \<and> ch \<noteq> CHR ''/''
      then find_loop n (Suc k) level isParam rest
      else (case Node_findChild level (CHR '':'') of
              Some param \<Rightarrow> find_loop n (Suc k) param True rest
            | None \<Rightarrow>
                (case Node_findChild level (CHR ''*'') of
                   Some catchAll \<Rightarrow> Inr catchAll
                 | None \<Rightarrow>
                     (case c of
                        Some c' \<Rightarrow> find_loop n (Suc k) c' False rest
                      | None \<Rightarrow> Inl errRouteNotFound))))"

definition resolve :: "'h Node \<Rightarrow> error + 'h Route option" where
  "resolve level =
     (case Node_findChild level eof of
        Some end \<Rightarrow> Inr (val end)
      | None \<Rightarrow>
          (case Node_findChild level (CHR ''/'') of
             Some slash \<Rightarrow>
               (case Node_findChild slash eof of
                  Some end \<Rightarrow> Inr (val end)
                | None \<Rightarrow> Inl errRouteNotFound)
           | None \<Rightarrow> Inl errRouteNotFound))"

text \<open>
  For the empty path the loop body never runs, \<^verbatim>\<open>level\<close> stays nil and the
  lookup fails.
\<close>

definition Node_find :: "'h Node \<Rightarrow> string \<Rightarrow> error + 'h Route option" where
  "Node_find node p =
     (if classify node \<noteq> NodeRoot then Inl errNonNodeSearch
      else if p = [] then Inl errRouteNotFound
      else (case find_loop (length p) 0 node False p of
              Inl e \<Rightarrow> Inl e
            | Inr level \<Rightarrow> resolve level))"


section \<open>Routes and their middleware\<close>

text \<open>
  \<^verbatim>\<open>ServeHTTP\<close> wraps the handler in each middleware in turn, in list order, and calls
  the result. A handler is any value of type \<^typ>\<open>'h\<close>; to call it, it is a function of
  the response writer and the request.
\<close>

fun wrap_loop :: "'h \<Rightarrow> ('h \<Rightarrow> 'h) list \<Rightarrow> 'h" where
  "wrap_loop base [] = base"
| "wrap_loop base (mw # rest) = wrap_loop (mw base) rest"

definition Route_ServeHTTP :: "('w \<Rightarrow> 'q \<Rightarrow> 'w) Route \<Rightarrow> 'w \<Rightarrow> 'q \<Rightarrow> 'w" where
  "Route_ServeHTTP route response request =
     (wrap_loop (handler route) (middleware route)) response request"

text \<open>
  The spec's expression \<^verbatim>\<open>wares[i-1](wares[i-2](...wares[0](h)))\<close>, by index.
\<close>

fun nested :: "('h \<Rightarrow> 'h) list \<Rightarrow> nat \<Rightarrow> 'h \<Rightarrow> 'h" where
  "nested wares 0 h = h"
| "nested wares (Suc i) h = (wares ! i) (nested wares i h)"

section \<open>Parameter extraction\<close>

text \<open>
  Go's \<^verbatim>\<open>strings.Split\<close> and \<^verbatim>\<open>strings.Join\<close> for a one-character separator, and
  \<^verbatim>\<open>strings.Contains\<close> as membership of that character. \<^verbatim>\<open>Split\<close> of the empty
  string is the list holding one empty string.
\<close>

fun split_from :: "char \<Rightarrow> string \<Rightarrow> string \<Rightarrow> string list" where
  "split_from sep cur [] = [cur]"
| "split_from sep cur (c # cs) =
     (if c = sep then cur # split_from sep [] cs else split_from sep (cur @ [c]) cs)"

definition Split :: "string \<Rightarrow> char \<Rightarrow> string list" where
  "Split s sep = split_from sep [] s"

fun Join :: "string list \<Rightarrow> char \<Rightarrow> string" where
  "Join [] sep = []"
| "Join [x] sep = x"
| "Join (x # y # ys) sep = x @ sep # Join (y # ys) sep"

definition Contains :: "string \<Rightarrow> char \<Rightarrow> bool" where
  "Contains s c = (c \<in> set s)"

text \<open>
  \<^verbatim>\<open>ParseParameter\<close> has named results: it returns the string built so far together
  with the error. An index out of range would panic; the check \<^verbatim>\<open>s1 < s2\<close> excludes
  it, and the model keeps the panic as a value.
\<close>

datatype fault = Error error | Panic

fun ParseParameter_loop ::
  "string list \<Rightarrow> nat \<Rightarrow> nat \<Rightarrow> string list \<Rightarrow> string \<Rightarrow> string \<times> fault option" where
  "ParseParameter_loop p1 s2 k [] result = (result, None)"
| "ParseParameter_loop p1 s2 k (v # vs) result =
     (if length v > 0 then
        (if hd v = CHR '':'' then
           (if k < length p1 then
              (if length result = 0
               then ParseParameter_loop p1 s2 (Suc k) vs (tl v @ '':'' @ p1 ! k)
               else ParseParameter_loop p1 s2 (Suc k) vs (result @ '','' @ tl v @ '':'' @ p1 ! k))
            else (result, Some Panic))
         else if hd v = CHR ''*'' then
           (if k \<noteq> s2 - 1 then (result, Some (Error errBadPattern))
            else
              (let name = (if length v > 1 then tl v else ''catch'') in
               if k \<le> length p1 then
                 (if length result = 0
                  then (name @ '':'' @ Join (drop k p1) (CHR ''/''), None)
                  else (result @ '','' @ name @ '':'' @ Join (drop k p1) (CHR ''/''), None))
               else (result, Some Panic)))
         else ParseParameter_loop p1 s2 (Suc k) vs result)
      else ParseParameter_loop p1 s2 (Suc k) vs result)"

definition ParseParameter :: "string \<Rightarrow> string \<Rightarrow> string \<times> fault option" where
  "ParseParameter match pattern =
     (if Contains pattern (CHR '':'') \<or> Contains pattern (CHR ''*'') then
        (let p1 = Split match (CHR ''/'');
             p2 = Split pattern (CHR ''/'');
             s1 = length p1;
             s2 = length p2
         in if s1 < s2 then ([], Some (Error errBadPattern))
            else ParseParameter_loop p1 s2 0 p2 [])
      else ([], None))"

section \<open>The parameter map of a request\<close>

type_synonym Parameter = "string \<rightharpoonup> string"

fun Load_loop :: "Parameter \<Rightarrow> string list \<Rightarrow> Parameter" where
  "Load_loop parameter [] = parameter"
| "Load_loop parameter (v # list) =
     (let variable = Split v (CHR '':'') in
      if length variable \<noteq> 2 then Load_loop parameter list
      else Load_loop (parameter(variable ! 0 \<mapsto> variable ! 1)) list)"

definition Parameter_Load :: "Parameter \<Rightarrow> string \<Rightarrow> Parameter" where
  "Parameter_Load parameter source = Load_loop parameter (Split source (CHR '',''))"

text \<open>Reading a missing key of a Go map, also of the nil map, gives the empty string.\<close>

definition Parameter_Get :: "Parameter option \<Rightarrow> string \<Rightarrow> string" where
  "Parameter_Get parameter k =
     (case parameter of
        None \<Rightarrow> []
      | Some m \<Rightarrow> (case m k of None \<Rightarrow> [] | Some v \<Rightarrow> v))"

definition headerName :: string where
  "headerName = ''_alien''"

text \<open>
  Of the request only the header is read: a map from names to values, where
  \<^verbatim>\<open>Header.Get\<close> of a missing name is the empty string.
\<close>

definition Header_Get :: "(string \<rightharpoonup> string) \<Rightarrow> string \<Rightarrow> string" where
  "Header_Get h name = (case h name of None \<Rightarrow> [] | Some v \<Rightarrow> v)"

definition GetParameter :: "(string \<rightharpoonup> string) \<Rightarrow> Parameter option" where
  "GetParameter request_header =
     (let v = Header_Get request_header headerName in
      if v \<noteq> [] then Some (Parameter_Load Map.empty v) else None)"


section \<open>The router: one trie per method\<close>

record 'h Router =
  put :: "'h Node option"
  get :: "'h Node option"
  post :: "'h Node option"
  head :: "'h Node option"
  patch :: "'h Node option"
  trace :: "'h Node option"
  delete :: "'h Node option"
  connect :: "'h Node option"
  options :: "'h Node option"

definition new_Router :: "'h Router" where
  "new_Router = \<lparr>put = None, get = None, post = None, head = None, patch = None,
                  trace = None, delete = None, connect = None, options = None\<rparr>"

definition AllMethod :: "string list" where
  "AllMethod = [''GET'', ''PUT'', ''POST'', ''HEAD'', ''PATCH'', ''TRACE'', ''DELETE'',
                ''OPTIONS'', ''CONNECT'']"

text \<open>The node literal \<^verbatim>\<open>&Node{classify: NodeRoot}\<close>: zero key, nil value, no children.\<close>

definition new_root :: "'h Node" where
  "new_root = Node (CHR 0x00) None NodeRoot []"

text \<open>
  Each case of \<^verbatim>\<open>addRoute\<close> creates the method's root when it is nil and inserts
  into it.
\<close>

definition root_insert ::
  "'h Node option \<Rightarrow> string \<Rightarrow> 'h Route \<Rightarrow> 'h Node option \<times> error option" where
  "root_insert t p newRoute =
     (case Node_insert (case t of None \<Rightarrow> new_root | Some node \<Rightarrow> node) p (Some newRoute) of
        (node', err) \<Rightarrow> (Some node', err))"

definition Router_addRoute ::
  "'h Router \<Rightarrow> string \<Rightarrow> string \<Rightarrow> 'h \<Rightarrow> ('h \<Rightarrow> 'h) list \<Rightarrow> 'h Router \<times> error option" where
  "Router_addRoute r method p h wares =
     (let newRoute = \<lparr>path = p, handler = h, middleware = wares\<rparr> in
      if method = ''GET'' then
        (case root_insert (get r) p newRoute of (t, err) \<Rightarrow> (r\<lparr>get := t\<rparr>, err))
      else if method = ''POST'' then
        (case root_insert (post r) p newRoute of (t, err) \<Rightarrow> (r\<lparr>post := t\<rparr>, err))
      else if method = ''PUT'' then
        (case root_insert (put r) p newRoute of (t, err) \<Rightarrow> (r\<lparr>put := t\<rparr>, err))
      else if method = ''PATCH'' then
        (case root_insert (patch r) p newRoute of (t, err) \<Rightarrow> (r\<lparr>patch := t\<rparr>, err))
      else if method = ''HEAD'' then
        (case root_insert (head r) p newRoute of (t, err) \<Rightarrow> (r\<lparr>head := t\<rparr>, err))
      else if method = ''CONNECT'' then
        (case root_insert (connect r) p newRoute of (t, err) \<Rightarrow> (r\<lparr>connect := t\<rparr>, err))
      else if method = ''OPTIONS'' then
        (case root_insert (options r) p newRoute of (t, err) \<Rightarrow> (r\<lparr>options := t\<rparr>, err))
      else if method = ''TRACE'' then
        (case root_insert (trace r) p newRoute of (t, err) \<Rightarrow> (r\<lparr>trace := t\<rparr>, err))
      else if method = ''DELETE'' then
        (case root_insert (delete r) p newRoute of (t, err) \<Rightarrow> (r\<lparr>delete := t\<rparr>, err))
      else (r, Some errUnknownMethod))"

definition root_find :: "'h Node option \<Rightarrow> string \<Rightarrow> error + 'h Route option" where
  "root_find t p = (case t of None \<Rightarrow> Inl errRouteNotFound | Some node \<Rightarrow> Node_find node p)"

definition Router_find :: "'h Router \<Rightarrow> string \<Rightarrow> string \<Rightarrow> error + 'h Route option" where
  "Router_find r method p =
     (if method = ''GET'' then root_find (get r) p
      else if method = ''POST'' then root_find (post r) p
      else if method = ''PUT'' then root_find (put r) p
      else if method = ''PATCH'' then root_find (patch r) p
      else if method = ''HEAD'' then root_find (head r) p
      else if method = ''CONNECT'' then root_find (connect r) p
      else if method = ''OPTIONS'' then root_find (options r) p
      else if method = ''TRACE'' then root_find (trace r) p
      else if method = ''DELETE'' then root_find (delete r) p
      else Inl errRouteNotFound)"


text \<open>The trie that \<^verbatim>\<open>addRoute\<close> and \<^verbatim>\<open>find\<close> select for a method name.\<close>

definition trie_of :: "'h Router \<Rightarrow> string \<Rightarrow> 'h Node option" where
  "trie_of r method =
     (if method = ''GET'' then get r
      else if method = ''POST'' then post r
      else if method = ''PUT'' then put r
      else if method = ''PATCH'' then patch r
      else if method = ''HEAD'' then head r
      else if method = ''CONNECT'' then connect r
      else if method = ''OPTIONS'' then options r
      else if method = ''TRACE'' then trace r
      else if method = ''DELETE'' then delete r
      else None)"

section \<open>Tries reached by registrations, and properties of all their nodes\<close>

text \<open>A sequence of registrations on one trie; it stops at the first error.\<close>

fun insert_all :: "'h Node \<Rightarrow> (string \<times> 'h Route option) list \<Rightarrow> 'h Node \<times> error option" where
  "insert_all node [] = (node, None)"
| "insert_all node ((pattern, v) # rest) =
     (case Node_insert node pattern v of
        (node', None) \<Rightarrow> insert_all node' rest
      | (node', Some e) \<Rightarrow> (node', Some e))"

fun all_nodes :: "('h Node \<Rightarrow> bool) \<Rightarrow> 'h Node \<Rightarrow> bool" where
  "all_nodes P (Node k v c cs) = (P (Node k v c cs) \<and> (\<forall>x\<in>set cs. all_nodes P x))"

text \<open>The keys of the children of a node are pairwise distinct.\<close>

definition sibling_keys_distinct :: "'h Node \<Rightarrow> bool" where
  "sibling_keys_distinct node = distinct (map key (children node))"

text \<open>The same for the children that are not terminal nodes.\<close>

definition scanned_keys_distinct :: "'h Node \<Rightarrow> bool" where
  "scanned_keys_distinct node =
     distinct (map key (filter (\<lambda>c. classify c \<noteq> nodeEnd) (children node)))"

text \<open>The key and kind of each child, in order.\<close>

definition shape :: "'h Node list \<Rightarrow> (char \<times> Classify) list" where
  "shape cs = map (\<lambda>c. (key c, classify c)) cs"

text \<open>
  Two nodes that no lookup can tell apart: the same value, and for every key the
  children that \<^verbatim>\<open>findChild\<close> returns are both missing or again alike.
\<close>

inductive alike :: "'h Node \<Rightarrow> 'h Node \<Rightarrow> bool" where
  alike_intro:
    "val a = val b \<Longrightarrow>
     (\<forall>k. (Node_findChild a k = None \<and> Node_findChild b k = None) \<or>
          (\<exists>c d. Node_findChild a k = Some c \<and> Node_findChild b k = Some d \<and> alike c d)) \<Longrightarrow>
     alike a b"





section \<open>The pairs behind the flat encoding\<close>

text \<open>
  The pairs (name, value) that the loop of \<^verbatim>\<open>ParseParameter\<close> appends to its result, in
  order: the same loop, collecting the pairs instead of the string.
\<close>

fun extracted_pairs_loop ::
  "string list \<Rightarrow> nat \<Rightarrow> nat \<Rightarrow> string list \<Rightarrow> (string \<times> string) list" where
  "extracted_pairs_loop p1 s2 k [] = []"
| "extracted_pairs_loop p1 s2 k (v # vs) =
     (if length v > 0 then
        (if hd v = CHR '':'' then
           (if k < length p1 then (tl v, p1 ! k) # extracted_pairs_loop p1 s2 (Suc k) vs else [])
         else if hd v = CHR ''*'' then
           (if k \<noteq> s2 - 1 then []
            else if k \<le> length p1
            then [(if length v > 1 then tl v else ''catch'', Join (drop k p1) (CHR ''/''))]
            else [])
         else extracted_pairs_loop p1 s2 (Suc k) vs)
      else extracted_pairs_loop p1 s2 (Suc k) vs)"

definition extracted_pairs :: "string \<Rightarrow> string \<Rightarrow> (string \<times> string) list" where
  "extracted_pairs match pattern =
     (if Contains pattern (CHR '':'') \<or> Contains pattern (CHR ''*'') then
        (let p1 = Split match (CHR ''/'');
             p2 = Split pattern (CHR ''/'')
         in if length p1 < length p2 then []
            else extracted_pairs_loop p1 (length p2) 0 p2)
      else [])"

text \<open>The entry \<^verbatim>\<open>name:value\<close> of a pair, and the entries joined by commas.\<close>

definition entry :: "string \<times> string \<Rightarrow> string" where
  "entry p = fst p @ '':'' @ snd p"

definition encode_pairs :: "(string \<times> string) list \<Rightarrow> string" where
  "encode_pairs ps = Join (map entry ps) (CHR '','')"

text \<open>A string without the two separators of the encoding.\<close>

definition benign :: "string \<Rightarrow> bool" where
  "benign s = (CHR '':'' \<notin> set s \<and> CHR '','' \<notin> set s)"

section \<open>Evaluation and the router's delegation\<close>

lemmas trie_defs =
  root_insert_def root_find_def new_root_def Node_insert_def Node_find_def
  Node_findChild_def Node_branch_def with_child_def classify_of_def resolve_def eof_def Let_def

lemmas extract_defs = ParseParameter_def Split_def Contains_def Let_def

lemma Router_find_trie_of: "Router_find r m p = root_find (trie_of r m) p"
  by (simp add: Router_find_def trie_of_def root_find_def)

lemma trie_of_new_Router: "trie_of new_Router m = None"
  by (simp add: trie_of_def new_Router_def)

lemma Router_addRoute_trie_of_both:
  assumes "m \<in> set AllMethod"
  shows "trie_of (fst (Router_addRoute r m p h ws)) m =
           fst (root_insert (trie_of r m) p \<lparr>path = p, handler = h, middleware = ws\<rparr>) \<and>
         snd (Router_addRoute r m p h ws) =
           snd (root_insert (trie_of r m) p \<lparr>path = p, handler = h, middleware = ws\<rparr>)"
  using assms
  apply (simp only: AllMethod_def set_simps insert_iff empty_iff simp_thms)
  apply (elim disjE)
  apply (simp_all add: Router_addRoute_def trie_of_def split: prod.splits)
  done

lemma Router_addRoute_trie_of:
  assumes "m \<in> set AllMethod"
  shows "trie_of (fst (Router_addRoute r m p h ws)) m =
           fst (root_insert (trie_of r m) p \<lparr>path = p, handler = h, middleware = ws\<rparr>)"
    and "snd (Router_addRoute r m p h ws) =
           snd (root_insert (trie_of r m) p \<lparr>path = p, handler = h, middleware = ws\<rparr>)"
  using Router_addRoute_trie_of_both [OF assms, of r p h ws] by simp_all

lemma Router_find_one_route:
  assumes "m \<in> set AllMethod"
  shows "Router_find (fst (Router_addRoute new_Router m p h ws)) m q =
           root_find (fst (root_insert None p \<lparr>path = p, handler = h, middleware = ws\<rparr>)) q"
  by (simp add: Router_find_trie_of Router_addRoute_trie_of(1)[OF assms] trie_of_new_Router)

lemma Router_find_two_routes:
  assumes "m \<in> set AllMethod"
  shows "Router_find (fst (Router_addRoute (fst (Router_addRoute new_Router m p1 h1 w1)) m p2 h2 w2)) m q =
           root_find (fst (root_insert
             (fst (root_insert None p1 \<lparr>path = p1, handler = h1, middleware = w1\<rparr>))
             p2 \<lparr>path = p2, handler = h2, middleware = w2\<rparr>)) q"
  by (simp add: Router_find_trie_of Router_addRoute_trie_of(1)[OF assms] trie_of_new_Router)

lemma GET_method: "''GET'' \<in> set AllMethod"
  by (simp add: AllMethod_def)

section \<open>A named catch-all is registered but never found\<close>

text \<open>
  C1. The specification says that after registering \<^verbatim>\<open>/hello/*name\<close> the lookup of
  \<^verbatim>\<open>/hello/my/magical/sheeplike/ship\<close> succeeds with the registered route. In the code
  the registration succeeds and extraction on the two strings gives
  \<^verbatim>\<open>name:my/magical/sheeplike/ship\<close>, but the lookup fails: \<^verbatim>\<open>insert\<close> stores the
  characters of the name below the \<^verbatim>\<open>*\<close> node, so the terminal node is a child of
  the node for \<^verbatim>\<open>e\<close>, while \<^verbatim>\<open>find\<close> stops at the \<^verbatim>\<open>*\<close> node and looks for the
  terminal among its children.
\<close>

theorem named_catch_all_not_found:
  "snd (Router_addRoute new_Router ''GET'' ''/hello/*name'' h ws) = None \<and>
   Router_find (fst (Router_addRoute new_Router ''GET'' ''/hello/*name'' h ws)) ''GET''
     ''/hello/my/magical/sheeplike/ship'' = Inl errRouteNotFound \<and>
   ParseParameter ''/hello/my/magical/sheeplike/ship'' ''/hello/*name''
     = (''name:my/magical/sheeplike/ship'', None)"
proof -
  have m: "''GET'' \<in> set AllMethod" by (simp add: AllMethod_def)
  have "snd (Router_addRoute new_Router ''GET'' ''/hello/*name'' h ws) = None"
    by (simp add: Router_addRoute_trie_of(2)[OF m] trie_of_new_Router trie_defs)
  moreover have "Router_find (fst (Router_addRoute new_Router ''GET'' ''/hello/*name'' h ws)) ''GET''
     ''/hello/my/magical/sheeplike/ship'' = Inl errRouteNotFound"
    by (simp add: Router_find_trie_of Router_addRoute_trie_of(1)[OF m] trie_of_new_Router trie_defs)
  moreover have "ParseParameter ''/hello/my/magical/sheeplike/ship'' ''/hello/*name''
     = (''name:my/magical/sheeplike/ship'', None)"
    by (simp add: extract_defs)
  ultimately show ?thesis by simp
qed

section \<open>The errors of insert\<close>

text \<open>
  C6. \<^verbatim>\<open>insert\<close> returns an error exactly when the node is not a root, the pattern is
  empty or the pattern does not start with a slash; the error is
  \<^const>\<open>errInsertOnNonRoot\<close> on a node that is not a root, \<^const>\<open>errEmptyPattern\<close> for the
  empty pattern on a root, and \<^const>\<open>errMustStartWithSlash\<close> for a pattern on a root with
  another first character. A pattern that starts with a slash, on a root, gives no
  error. Whenever an error is returned the node is returned as it was.
\<close>

theorem insert_errors:
  "(snd (Node_insert node pattern v) \<noteq> None \<longleftrightarrow>
      classify node \<noteq> NodeRoot \<or> pattern = [] \<or> hd pattern \<noteq> CHR ''/'') \<and>
   (classify node \<noteq> NodeRoot \<longrightarrow> snd (Node_insert node pattern v) = Some errInsertOnNonRoot) \<and>
   (classify node = NodeRoot \<and> pattern = [] \<longrightarrow>
      snd (Node_insert node pattern v) = Some errEmptyPattern) \<and>
   (classify node = NodeRoot \<and> pattern \<noteq> [] \<and> hd pattern \<noteq> CHR ''/'' \<longrightarrow>
      snd (Node_insert node pattern v) = Some errMustStartWithSlash) \<and>
   (classify node = NodeRoot \<longrightarrow> snd (Node_insert node (CHR ''/'' # rest) v) = None) \<and>
   (snd (Node_insert node pattern v) \<noteq> None \<longrightarrow> fst (Node_insert node pattern v) = node)"
  unfolding Node_insert_def by simp

theorem insert_errors_witness:
  "snd (Node_insert (Node (CHR '':'') None nodeParam []) ''/a'' (None :: nat Route option))
     = Some errInsertOnNonRoot \<and>
   fst (Node_insert (Node (CHR '':'') None nodeParam []) ''/a'' (None :: nat Route option))
     = Node (CHR '':'') None nodeParam [] \<and>
   Node_insert new_root [] (None :: nat Route option) = (new_root, Some errEmptyPattern) \<and>
   Node_insert new_root ''a/'' (None :: nat Route option) = (new_root, Some errMustStartWithSlash) \<and>
   snd (Node_insert new_root ''/a'' (None :: nat Route option)) = None"
proof -
  have r: "classify (new_root :: nat Node) = NodeRoot" by (simp add: new_root_def)
  note a = insert_errors [of "Node (CHR '':'') None nodeParam []" "''/a''" "None :: nat Route option"]
  note b = insert_errors [of new_root "[]" "None :: nat Route option"]
  note c = insert_errors [of new_root "''a/''" "None :: nat Route option"]
  note d = insert_errors [of new_root "''/a''" "None :: nat Route option" "''a''"]
  have "snd (Node_insert (Node (CHR '':'') None nodeParam []) ''/a'' (None :: nat Route option)) = Some errInsertOnNonRoot"
    using a by simp
  moreover have "fst (Node_insert (Node (CHR '':'') None nodeParam []) ''/a'' (None :: nat Route option))
     = Node (CHR '':'') None nodeParam []"
    using a by simp
  moreover have "Node_insert new_root [] (None :: nat Route option) = (new_root, Some errEmptyPattern)"
    using b r by (simp add: prod_eq_iff)
  moreover have "Node_insert new_root ''a/'' (None :: nat Route option) = (new_root, Some errMustStartWithSlash)"
    using c r by (simp add: prod_eq_iff)
  moreover have "snd (Node_insert new_root ''/a'' (None :: nat Route option)) = None"
    using d r by simp
  ultimately show ?thesis by simp
qed

section \<open>Middleware order\<close>

lemma wrap_loop_snoc: "wrap_loop base (ws @ [mw]) = mw (wrap_loop base ws)"
  by (induction ws arbitrary: base) simp_all

lemma wrap_loop_take: "i \<le> length wares \<Longrightarrow> wrap_loop h (take i wares) = nested wares i h"
proof (induction i)
  case 0
  then show ?case by simp
next
  case (Suc i)
  then have "take (Suc i) wares = take i wares @ [wares ! i]"
    by (simp add: take_Suc_conv_app_nth)
  with Suc show ?case by (simp add: wrap_loop_snoc)
qed

lemma wrap_loop_nested: "wrap_loop h wares = nested wares (length wares) h"
  using wrap_loop_take [of "length wares" wares h] by simp

text \<open>
  C9. Invoking a route calls \<^verbatim>\<open>wares[n-1](wares[n-2](...wares[0](h)))\<close>: with middleware the
  last one of the list is the outermost wrapper, without middleware the handler is
  called directly.
\<close>

theorem ServeHTTP_middleware_order:
  "Route_ServeHTTP route w q =
     nested (middleware route) (length (middleware route)) (handler route) w q \<and>
   (middleware route = [] \<longrightarrow> Route_ServeHTTP route w q = handler route w q) \<and>
   (middleware route \<noteq> [] \<longrightarrow>
      Route_ServeHTTP route w q =
        (last (middleware route))
          (nested (middleware route) (length (middleware route) - 1) (handler route)) w q)"
proof -
  have a: "Route_ServeHTTP route w q =
     nested (middleware route) (length (middleware route)) (handler route) w q"
    by (simp add: Route_ServeHTTP_def wrap_loop_nested)
  have b: "middleware route = [] \<longrightarrow> Route_ServeHTTP route w q = handler route w q"
    by (simp add: Route_ServeHTTP_def)
  have c: "middleware route \<noteq> [] \<longrightarrow>
      Route_ServeHTTP route w q =
        (last (middleware route))
          (nested (middleware route) (length (middleware route) - 1) (handler route)) w q"
  proof
    assume ne: "middleware route \<noteq> []"
    then obtain n where n: "length (middleware route) = Suc n"
      by (cases "middleware route") simp_all
    with ne have "last (middleware route) = middleware route ! n"
      by (simp add: last_conv_nth)
    with a n show "Route_ServeHTTP route w q =
        (last (middleware route))
          (nested (middleware route) (length (middleware route) - 1) (handler route)) w q"
      by simp
  qed
  from a b c show ?thesis by simp
qed

text \<open>
  Handlers that log their name in front of the response: the last middleware of the
  list writes first.
\<close>

theorem ServeHTTP_middleware_order_witness:
  "Route_ServeHTTP
     \<lparr>path = ''/'', handler = (\<lambda>w q. w @ ''h''),
      middleware = [\<lambda>b w q. b (w @ ''0'') q, \<lambda>b w q. b (w @ ''1'') q]\<rparr> [] () = ''10h'' \<and>
   Route_ServeHTTP \<lparr>path = ''/'', handler = (\<lambda>w q. w @ ''h''), middleware = []\<rparr> [] () = ''h''"
proof -
  note a = ServeHTTP_middleware_order
    [of "\<lparr>path = ''/'', handler = (\<lambda>w q. w @ ''h''),
          middleware = [\<lambda>b w q. b (w @ ''0'') q, \<lambda>b w q. b (w @ ''1'') q]\<rparr>" "[]" "()"]
  note b = ServeHTTP_middleware_order
    [of "\<lparr>path = ''/'', handler = (\<lambda>w q. w @ ''h''), middleware = []\<rparr>" "[]" "()"]
  have "Route_ServeHTTP
     \<lparr>path = ''/'', handler = (\<lambda>w q. w @ ''h''),
      middleware = [\<lambda>b w q. b (w @ ''0'') q, \<lambda>b w q. b (w @ ''1'') q]\<rparr> [] () = ''10h''"
    using a by (simp add: numeral_2_eq_2)
  moreover have
    "Route_ServeHTTP \<lparr>path = ''/'', handler = (\<lambda>w q. w @ ''h''), middleware = []\<rparr> [] () = ''h''"
    using b by simp
  ultimately show ?thesis by simp
qed

section \<open>Precedence among the children of a node\<close>

lemma find_loop_parameter_first:
  assumes "\<not> (isParam \<and> k < n \<and> ch \<noteq> CHR ''/'')"
    and "Node_findChild level (CHR '':'') = Some param"
  shows "find_loop n k level isParam (ch # rest) = find_loop n (Suc k) param True rest"
  using assms by (auto simp add: Let_def)

text \<open>
  C4. With \<^verbatim>\<open>/users/:id\<close> and \<^verbatim>\<open>/users/new\<close> registered for one method, in either
  order, the lookup of \<^verbatim>\<open>/users/new\<close> returns the route of \<^verbatim>\<open>/users/:id\<close>, and extraction
  gives the single pair \<^verbatim>\<open>id = new\<close>. In general, at a character that is not swallowed by
  a parameter run, a node with a child keyed \<^verbatim>\<open>:\<close> and a child keyed by the character
  continues the scan in the parameter child.
\<close>

theorem parameter_wins_over_literal:
  "(m \<in> set AllMethod \<longrightarrow>
      Router_find (fst (Router_addRoute (fst (Router_addRoute new_Router m ''/users/:id'' h1 w1))
          m ''/users/new'' h2 w2)) m ''/users/new''
        = Inr (Some \<lparr>path = ''/users/:id'', handler = h1, middleware = w1\<rparr>) \<and>
      Router_find (fst (Router_addRoute (fst (Router_addRoute new_Router m ''/users/new'' h2 w2))
          m ''/users/:id'' h1 w1)) m ''/users/new''
        = Inr (Some \<lparr>path = ''/users/:id'', handler = h1, middleware = w1\<rparr>)) \<and>
   ParseParameter ''/users/new'' ''/users/:id'' = (''id:new'', None) \<and>
   Parameter_Load Map.empty ''id:new'' = [''id'' \<mapsto> ''new''] \<and>
   (\<not> (isParam \<and> k < n \<and> ch \<noteq> CHR ''/'') \<and>
    Node_findChild level (CHR '':'') = Some param \<and> Node_findChild level ch = Some c \<longrightarrow>
      find_loop n k level isParam (ch # rest) = find_loop n (Suc k) param True rest)"
proof -
  have a: "m \<in> set AllMethod \<longrightarrow>
      Router_find (fst (Router_addRoute (fst (Router_addRoute new_Router m ''/users/:id'' h1 w1))
          m ''/users/new'' h2 w2)) m ''/users/new''
        = Inr (Some \<lparr>path = ''/users/:id'', handler = h1, middleware = w1\<rparr>)"
    by (simp add: Router_find_two_routes trie_defs)
  have b: "m \<in> set AllMethod \<longrightarrow>
      Router_find (fst (Router_addRoute (fst (Router_addRoute new_Router m ''/users/new'' h2 w2))
          m ''/users/:id'' h1 w1)) m ''/users/new''
        = Inr (Some \<lparr>path = ''/users/:id'', handler = h1, middleware = w1\<rparr>)"
    by (simp add: Router_find_two_routes trie_defs)
  have c: "ParseParameter ''/users/new'' ''/users/:id'' = (''id:new'', None)"
    by (simp add: extract_defs)
  have d: "Parameter_Load Map.empty ''id:new'' = [''id'' \<mapsto> ''new'']"
    by (simp add: Parameter_Load_def Split_def Let_def)
  have e: "\<not> (isParam \<and> k < n \<and> ch \<noteq> CHR ''/'') \<and>
    Node_findChild level (CHR '':'') = Some param \<and> Node_findChild level ch = Some c \<longrightarrow>
      find_loop n k level isParam (ch # rest) = find_loop n (Suc k) param True rest"
    using find_loop_parameter_first [of isParam k n ch level param rest] by blast
  from a b c d e show ?thesis by blast
qed

theorem parameter_wins_over_literal_witness:
  "Router_find (fst (Router_addRoute (fst (Router_addRoute new_Router ''GET'' ''/users/:id'' (1::nat) []))
          ''GET'' ''/users/new'' 2 [])) ''GET'' ''/users/new''
        = Inr (Some \<lparr>path = ''/users/:id'', handler = 1, middleware = []\<rparr>) \<and>
   Router_find (fst (Router_addRoute (fst (Router_addRoute new_Router ''GET'' ''/users/new'' (2::nat) []))
          ''GET'' ''/users/:id'' 1 [])) ''GET'' ''/users/new''
        = Inr (Some \<lparr>path = ''/users/:id'', handler = 1, middleware = []\<rparr>) \<and>
   find_loop 1 0
     (Node (CHR ''/'') (None :: nat Route option) nodeNormal
        [Node (CHR ''n'') None nodeNormal [], Node (CHR '':'') None nodeParam []])
     False ''n'' = Inr (Node (CHR '':'') None nodeParam [])"
proof -
  note t = parameter_wins_over_literal
    [where m = "''GET''" and ?h1.0 = "1::nat" and ?w1.0 = "[]" and ?h2.0 = "2::nat" and ?w2.0 = "[]"
       and isParam = False and k = 0 and n = 1 and ch = "CHR ''n''" and rest = "[]"
       and level = "Node (CHR ''/'') (None :: nat Route option) nodeNormal
          [Node (CHR ''n'') None nodeNormal [], Node (CHR '':'') None nodeParam []]"
       and param = "Node (CHR '':'') None nodeParam []"
       and c = "Node (CHR ''n'') None nodeNormal []"]
  have f: "Node_findChild (Node (CHR ''/'') (None :: nat Route option) nodeNormal
          [Node (CHR ''n'') None nodeNormal [], Node (CHR '':'') None nodeParam []]) (CHR '':'')
        = Some (Node (CHR '':'') None nodeParam [])"
    by (simp add: Node_findChild_def)
  have g: "Node_findChild (Node (CHR ''/'') (None :: nat Route option) nodeNormal
          [Node (CHR ''n'') None nodeNormal [], Node (CHR '':'') None nodeParam []]) (CHR ''n'')
        = Some (Node (CHR ''n'') None nodeNormal [])"
    by (simp add: Node_findChild_def)
  from t GET_method f g show ?thesis by simp
qed

lemma find_loop_catch_all_second:
  assumes "\<not> (isParam \<and> k < n \<and> ch \<noteq> CHR ''/'')"
    and "Node_findChild level (CHR '':'') = None"
    and "Node_findChild level (CHR ''*'') = Some catchAll"
  shows "find_loop n k level isParam (ch # rest) = Inr catchAll"
  using assms by (auto simp add: Let_def)

text \<open>
  C5. The specification says that a catch-all child is selected in preference to a parameter
  child. In \<^verbatim>\<open>find\<close> the child keyed \<^verbatim>\<open>:\<close> is tested first: at a node with both, the
  scan goes into the parameter child, and with \<^verbatim>\<open>/a/:x\<close> and \<^verbatim>\<open>/a/*y\<close> registered the
  lookup of \<^verbatim>\<open>/a/b\<close> returns the route of \<^verbatim>\<open>/a/:x\<close>.
\<close>

theorem catch_all_over_parameter_counterexample:
  "find_loop 1 0
     (Node (CHR ''/'') (None :: nat Route option) nodeNormal
        [Node (CHR '':'') None nodeParam [], Node (CHR ''*'') None nodeCatchAll []])
     False ''b'' = Inr (Node (CHR '':'') None nodeParam []) \<and>
   Router_find (fst (Router_addRoute (fst (Router_addRoute new_Router ''GET'' ''/a/:x'' (1::nat) []))
       ''GET'' ''/a/*y'' 2 [])) ''GET'' ''/a/b''
     = Inr (Some \<lparr>path = ''/a/:x'', handler = 1, middleware = []\<rparr>)"
proof -
  have "find_loop 1 0
     (Node (CHR ''/'') (None :: nat Route option) nodeNormal
        [Node (CHR '':'') None nodeParam [], Node (CHR ''*'') None nodeCatchAll []])
     False ''b'' = Inr (Node (CHR '':'') None nodeParam [])"
    by (simp add: Node_findChild_def)
  moreover have
    "Router_find (fst (Router_addRoute (fst (Router_addRoute new_Router ''GET'' ''/a/:x'' (1::nat) []))
       ''GET'' ''/a/*y'' 2 [])) ''GET'' ''/a/b''
     = Inr (Some \<lparr>path = ''/a/:x'', handler = 1, middleware = []\<rparr>)"
    by (simp add: Router_find_two_routes [OF GET_method] trie_defs)
  ultimately show ?thesis by simp
qed

text \<open>
  C5, as the code has it. At a character that is not swallowed by a parameter run, a
  node with a child keyed \<^verbatim>\<open>:\<close> and a child keyed \<^verbatim>\<open>*\<close> continues the scan in the
  parameter child; the catch-all child is taken, and ends the scan, only at a node
  without a parameter child, whatever literal children the node has. With \<^verbatim>\<open>/a/:x\<close> and
  \<^verbatim>\<open>/a/*y\<close> registered for one method, in either order, the lookup of \<^verbatim>\<open>/a/b\<close> returns
  the route of \<^verbatim>\<open>/a/:x\<close>.
\<close>

theorem parameter_wins_over_catch_all:
  "(\<not> (isParam \<and> k < n \<and> ch \<noteq> CHR ''/'') \<and>
    Node_findChild level (CHR '':'') = Some param \<and>
    Node_findChild level (CHR ''*'') = Some catchAll \<longrightarrow>
      find_loop n k level isParam (ch # rest) = find_loop n (Suc k) param True rest) \<and>
   (\<not> (isParam \<and> k < n \<and> ch \<noteq> CHR ''/'') \<and>
    Node_findChild level (CHR '':'') = None \<and>
    Node_findChild level (CHR ''*'') = Some catchAll \<longrightarrow>
      find_loop n k level isParam (ch # rest) = Inr catchAll) \<and>
   (m \<in> set AllMethod \<longrightarrow>
      Router_find (fst (Router_addRoute (fst (Router_addRoute new_Router m ''/a/:x'' h1 w1))
          m ''/a/*y'' h2 w2)) m ''/a/b''
        = Inr (Some \<lparr>path = ''/a/:x'', handler = h1, middleware = w1\<rparr>) \<and>
      Router_find (fst (Router_addRoute (fst (Router_addRoute new_Router m ''/a/*y'' h2 w2))
          m ''/a/:x'' h1 w1)) m ''/a/b''
        = Inr (Some \<lparr>path = ''/a/:x'', handler = h1, middleware = w1\<rparr>))"
proof -
  have a: "\<not> (isParam \<and> k < n \<and> ch \<noteq> CHR ''/'') \<and>
    Node_findChild level (CHR '':'') = Some param \<and>
    Node_findChild level (CHR ''*'') = Some catchAll \<longrightarrow>
      find_loop n k level isParam (ch # rest) = find_loop n (Suc k) param True rest"
    using find_loop_parameter_first [of isParam k n ch level param rest] by blast
  have b: "\<not> (isParam \<and> k < n \<and> ch \<noteq> CHR ''/'') \<and>
    Node_findChild level (CHR '':'') = None \<and>
    Node_findChild level (CHR ''*'') = Some catchAll \<longrightarrow>
      find_loop n k level isParam (ch # rest) = Inr catchAll"
    by (simp add: find_loop_catch_all_second del: find_loop.simps)
  have c: "m \<in> set AllMethod \<longrightarrow>
      Router_find (fst (Router_addRoute (fst (Router_addRoute new_Router m ''/a/:x'' h1 w1))
          m ''/a/*y'' h2 w2)) m ''/a/b''
        = Inr (Some \<lparr>path = ''/a/:x'', handler = h1, middleware = w1\<rparr>)"
    by (simp add: Router_find_two_routes trie_defs)
  have d: "m \<in> set AllMethod \<longrightarrow>
      Router_find (fst (Router_addRoute (fst (Router_addRoute new_Router m ''/a/*y'' h2 w2))
          m ''/a/:x'' h1 w1)) m ''/a/b''
        = Inr (Some \<lparr>path = ''/a/:x'', handler = h1, middleware = w1\<rparr>)"
    by (simp add: Router_find_two_routes trie_defs)
  from a b c d show ?thesis by blast
qed

theorem parameter_wins_over_catch_all_witness:
  "find_loop 1 0
     (Node (CHR ''/'') (None :: nat Route option) nodeNormal
        [Node (CHR ''*'') None nodeCatchAll [], Node (CHR '':'') None nodeParam []])
     False ''b'' = Inr (Node (CHR '':'') None nodeParam []) \<and>
   find_loop 1 0
     (Node (CHR ''/'') (None :: nat Route option) nodeNormal
        [Node (CHR ''b'') None nodeNormal [], Node (CHR ''*'') None nodeCatchAll []])
     False ''b'' = Inr (Node (CHR ''*'') None nodeCatchAll []) \<and>
   Router_find (fst (Router_addRoute (fst (Router_addRoute new_Router ''GET'' ''/a/*y'' (2::nat) []))
       ''GET'' ''/a/:x'' 1 [])) ''GET'' ''/a/b''
     = Inr (Some \<lparr>path = ''/a/:x'', handler = 1, middleware = []\<rparr>)"
proof -
  note t1 = parameter_wins_over_catch_all
    [where m = "''GET''" and ?h1.0 = "1::nat" and ?w1.0 = "[]" and ?h2.0 = "2::nat" and ?w2.0 = "[]"
       and isParam = False and k = 0 and n = 1 and ch = "CHR ''b''" and rest = "[]"
       and level = "Node (CHR ''/'') (None :: nat Route option) nodeNormal
          [Node (CHR ''*'') None nodeCatchAll [], Node (CHR '':'') None nodeParam []]"
       and param = "Node (CHR '':'') None nodeParam []"
       and catchAll = "Node (CHR ''*'') None nodeCatchAll []"]
  note t2 = parameter_wins_over_catch_all
    [where m = "''GET''" and ?h1.0 = "1::nat" and ?w1.0 = "[]" and ?h2.0 = "2::nat" and ?w2.0 = "[]"
       and isParam = False and k = 0 and n = 1 and ch = "CHR ''b''" and rest = "[]"
       and level = "Node (CHR ''/'') (None :: nat Route option) nodeNormal
          [Node (CHR ''b'') None nodeNormal [], Node (CHR ''*'') None nodeCatchAll []]"
       and param = "Node (CHR '':'') None nodeParam []"
       and catchAll = "Node (CHR ''*'') None nodeCatchAll []"]
  have f1: "Node_findChild (Node (CHR ''/'') (None :: nat Route option) nodeNormal
          [Node (CHR ''*'') None nodeCatchAll [], Node (CHR '':'') None nodeParam []]) (CHR '':'')
        = Some (Node (CHR '':'') None nodeParam [])"
    by (simp add: Node_findChild_def)
  have g1: "Node_findChild (Node (CHR ''/'') (None :: nat Route option) nodeNormal
          [Node (CHR ''*'') None nodeCatchAll [], Node (CHR '':'') None nodeParam []]) (CHR ''*'')
        = Some (Node (CHR ''*'') None nodeCatchAll [])"
    by (simp add: Node_findChild_def)
  have f2: "Node_findChild (Node (CHR ''/'') (None :: nat Route option) nodeNormal
          [Node (CHR ''b'') None nodeNormal [], Node (CHR ''*'') None nodeCatchAll []]) (CHR '':'')
        = None"
    by (simp add: Node_findChild_def)
  have g2: "Node_findChild (Node (CHR ''/'') (None :: nat Route option) nodeNormal
          [Node (CHR ''b'') None nodeNormal [], Node (CHR ''*'') None nodeCatchAll []]) (CHR ''*'')
        = Some (Node (CHR ''*'') None nodeCatchAll [])"
    by (simp add: Node_findChild_def)
  have "find_loop 1 0
     (Node (CHR ''/'') (None :: nat Route option) nodeNormal
        [Node (CHR ''*'') None nodeCatchAll [], Node (CHR '':'') None nodeParam []])
     False ''b'' = Inr (Node (CHR '':'') None nodeParam [])"
    using t1 f1 g1 by simp
  moreover have "find_loop 1 0
     (Node (CHR ''/'') (None :: nat Route option) nodeNormal
        [Node (CHR ''b'') None nodeNormal [], Node (CHR ''*'') None nodeCatchAll []])
     False ''b'' = Inr (Node (CHR ''*'') None nodeCatchAll [])"
    using t2 f2 g2 by simp
  moreover have
    "Router_find (fst (Router_addRoute (fst (Router_addRoute new_Router ''GET'' ''/a/*y'' (2::nat) []))
       ''GET'' ''/a/:x'' 1 [])) ''GET'' ''/a/b''
     = Inr (Some \<lparr>path = ''/a/:x'', handler = 1, middleware = []\<rparr>)"
    using t1 GET_method by simp
  ultimately show ?thesis by simp
qed

section \<open>Extraction of a catch-all\<close>

lemma split_from_member:
  "v \<in> set (split_from sep cur s) \<Longrightarrow> c \<in> set v \<Longrightarrow> c \<in> set cur \<or> c \<in> set s"
proof (induction s arbitrary: cur)
  case Nil
  then show ?case by simp
next
  case (Cons a s)
  show ?case
  proof (cases "a = sep")
    case True
    with Cons.prems have "v = cur \<or> v \<in> set (split_from sep [] s)" by simp
    then show ?thesis
    proof
      assume "v = cur"
      with Cons.prems show ?thesis by simp
    next
      assume "v \<in> set (split_from sep [] s)"
      from Cons.IH [OF this Cons.prems(2)] show ?thesis by simp
    qed
  next
    case False
    with Cons.prems have "v \<in> set (split_from sep (cur @ [a]) s)" by simp
    from Cons.IH [OF this Cons.prems(2)] show ?thesis by auto
  qed
qed

lemma Split_member: "v \<in> set (Split s sep) \<Longrightarrow> c \<in> set v \<Longrightarrow> Contains s c"
  using split_from_member [of v sep "[]" s c] by (simp add: Split_def Contains_def)

lemma ParseParameter_loop_skip:
  assumes "\<forall>v\<in>set pre. v = [] \<or> (hd v \<noteq> CHR '':'' \<and> hd v \<noteq> CHR ''*'')"
  shows "ParseParameter_loop p1 s2 k (pre @ rest) result =
           ParseParameter_loop p1 s2 (k + length pre) rest result"
  using assms by (induction pre arbitrary: k) auto

lemma ParseParameter_loop_catch_all:
  assumes "k = s2 - 1" and "k \<le> length p1"
  shows "ParseParameter_loop p1 s2 k ((CHR ''*'' # name) # vs) result =
           ((if result = [] then [] else result @ '','')
              @ (if name = [] then ''catch'' else name) @ '':'' @ Join (drop k p1) (CHR ''/''), None)"
  using assms by (simp add: Let_def)

lemma ParseParameter_loop_bad_catch_all:
  assumes "j < length vs" and "vs ! j \<noteq> []" and "hd (vs ! j) = CHR ''*''"
    and "k + j < s2 - 1" and "k + length vs \<le> length p1"
  shows "snd (ParseParameter_loop p1 s2 k vs result) = Some (Error errBadPattern)"
  using assms
proof (induction vs arbitrary: k j result)
  case Nil
  then show ?case by simp
next
  case (Cons v vs)
  show ?case
  proof (cases j)
    case 0
    with Cons.prems have "v \<noteq> []" "hd v = CHR ''*''" "k \<noteq> s2 - 1" by simp_all
    then show ?thesis by simp
  next
    case (Suc j')
    with Cons.prems have p: "j' < length vs" "vs ! j' \<noteq> []" "hd (vs ! j') = CHR ''*''"
      "Suc k + j' < s2 - 1" "Suc k + length vs \<le> length p1"
      by simp_all
    have r: "snd (ParseParameter_loop p1 s2 (Suc k) vs res) = Some (Error errBadPattern)" for res
      using Cons.IH [OF p] .
    from p have k: "k < length p1" "k \<noteq> s2 - 1" by simp_all
    show ?thesis using r k by (simp add: Let_def)
  qed
qed

lemma ParseParameter_bad_catch_all:
  assumes "j < length (Split pattern (CHR ''/'')) - 1"
    and "Split pattern (CHR ''/'') ! j \<noteq> []"
    and "hd (Split pattern (CHR ''/'') ! j) = CHR ''*''"
  shows "snd (ParseParameter match pattern) = Some (Error errBadPattern)"
proof -
  let ?p2 = "Split pattern (CHR ''/'')"
  from assms have "?p2 ! j \<in> set ?p2" by simp
  moreover from assms(2,3) have "CHR ''*'' \<in> set (?p2 ! j)"
    using hd_in_set [of "?p2 ! j"] by simp
  ultimately
  have c: "Contains pattern (CHR ''*'')" by (rule Split_member)
  show ?thesis
  proof (cases "length (Split match (CHR ''/'')) < length ?p2")
    case True
    with c show ?thesis by (simp add: ParseParameter_def Let_def)
  next
    case False
    then have "0 + length ?p2 \<le> length (Split match (CHR ''/''))" by simp
    moreover from assms have "j < length ?p2" "0 + j < length ?p2 - 1" by simp_all
    ultimately have
      "snd (ParseParameter_loop (Split match (CHR ''/'')) (length ?p2) 0 ?p2 []) =
         Some (Error errBadPattern)"
      using assms(2,3) ParseParameter_loop_bad_catch_all by blast
    with c False show ?thesis by (simp add: ParseParameter_def Let_def)
  qed
qed

lemma ParseParameter_unnamed_catch_all:
  assumes "Split pattern (CHR ''/'') = pre @ [''*'']"
    and "\<forall>v\<in>set pre. v = [] \<or> (hd v \<noteq> CHR '':'' \<and> hd v \<noteq> CHR ''*'')"
    and "length pre < length (Split match (CHR ''/''))"
  shows "ParseParameter match pattern =
           (''catch:'' @ Join (drop (length pre) (Split match (CHR ''/''))) (CHR ''/''), None)"
proof -
  have "''*'' \<in> set (Split pattern (CHR ''/''))" using assms(1) by simp
  then have c: "Contains pattern (CHR ''*'')" by (rule Split_member) simp
  have "ParseParameter_loop (Split match (CHR ''/'')) (Suc (length pre)) 0 (pre @ [''*'']) [] =
          ParseParameter_loop (Split match (CHR ''/'')) (Suc (length pre)) (length pre) [''*''] []"
    using ParseParameter_loop_skip [OF assms(2), of "Split match (CHR ''/'')" "Suc (length pre)" 0 "[''*'']" "[]"]
    by simp
  also have "\<dots> = (''catch:'' @ Join (drop (length pre) (Split match (CHR ''/''))) (CHR ''/''), None)"
    using ParseParameter_loop_catch_all [of "length pre" "Suc (length pre)" "Split match (CHR ''/'')" "[]" "[]" "[]"]
      assms(3)
    by simp
  finally show ?thesis using c assms(1,3) by (simp add: ParseParameter_def Let_def)
qed

text \<open>The index checks of Go never fail in \<^verbatim>\<open>ParseParameter\<close>.\<close>

lemma ParseParameter_loop_no_panic:
  "k + length vs \<le> length p1 \<Longrightarrow> snd (ParseParameter_loop p1 s2 k vs result) \<noteq> Some Panic"
proof (induction vs arbitrary: k result)
  case Nil
  then show ?case by simp
next
  case (Cons v vs)
  then have "Suc k + length vs \<le> length p1" "k < length p1" "k \<le> length p1" by simp_all
  with Cons.IH [of "Suc k"] show ?case by (auto simp add: Let_def)
qed

lemma ParseParameter_no_panic: "snd (ParseParameter match pattern) \<noteq> Some Panic"
  using ParseParameter_loop_no_panic
    [of 0 "Split pattern (CHR ''/'')" "Split match (CHR ''/'')" "length (Split pattern (CHR ''/''))" "[]"]
  by (simp add: ParseParameter_def Let_def)

text \<open>
  C7. The specification says that extraction fails with \<^verbatim>\<open>BadPattern\<close> whenever the path has fewer
  segments than the pattern. For a pattern without \<^verbatim>\<open>:\<close> and \<^verbatim>\<open>*\<close> the body of
  \<^verbatim>\<open>ParseParameter\<close> is skipped and no error is returned, also when the path is
  shorter.
\<close>

theorem short_path_counterexample:
  "length (Split ''/a'' (CHR ''/'')) < length (Split ''/a/b'' (CHR ''/'')) \<and>
   ParseParameter ''/a'' ''/a/b'' = ([], None)"
  by (simp add: extract_defs)

text \<open>
  C7, as the code has it. After registering \<^verbatim>\<open>/hello/*\<close> for a method the lookup of
  \<^verbatim>\<open>/hello/a/b\<close> returns the route, and extraction gives the single pair
  \<^verbatim>\<open>catch = a/b\<close>. A pattern of literal segments followed by the segment \<^verbatim>\<open>*\<close> gives the
  name \<^verbatim>\<open>catch\<close> with the join of the path segments from the index of \<^verbatim>\<open>*\<close> on; in the
  loop a segment \<^verbatim>\<open>*name\<close> at the last index ends the extraction with the name, or
  \<^verbatim>\<open>catch\<close> for the empty name, and that join. Extraction fails with \<^verbatim>\<open>BadPattern\<close>
  whenever a segment that starts with \<^verbatim>\<open>*\<close> is not the last one, and whenever the
  pattern contains \<^verbatim>\<open>:\<close> or \<^verbatim>\<open>*\<close> and the path has fewer segments than the pattern.
\<close>

theorem unnamed_catch_all:
  "(m \<in> set AllMethod \<longrightarrow>
      Router_find (fst (Router_addRoute new_Router m ''/hello/*'' h ws)) m ''/hello/a/b''
        = Inr (Some \<lparr>path = ''/hello/*'', handler = h, middleware = ws\<rparr>)) \<and>
   ParseParameter ''/hello/a/b'' ''/hello/*'' = (''catch:a/b'', None) \<and>
   Parameter_Load Map.empty ''catch:a/b'' = [''catch'' \<mapsto> ''a/b''] \<and>
   (Split pattern (CHR ''/'') = pre @ [''*''] \<and>
    (\<forall>v\<in>set pre. v = [] \<or> (hd v \<noteq> CHR '':'' \<and> hd v \<noteq> CHR ''*'')) \<and>
    length pre < length (Split match (CHR ''/'')) \<longrightarrow>
      ParseParameter match pattern =
        (''catch:'' @ Join (drop (length pre) (Split match (CHR ''/''))) (CHR ''/''), None)) \<and>
   (k = s2 - 1 \<and> k \<le> length p1 \<longrightarrow>
      ParseParameter_loop p1 s2 k ((CHR ''*'' # name) # vs) result =
        ((if result = [] then [] else result @ '','')
           @ (if name = [] then ''catch'' else name) @ '':'' @ Join (drop k p1) (CHR ''/''), None)) \<and>
   (j < length (Split pattern (CHR ''/'')) - 1 \<and> Split pattern (CHR ''/'') ! j \<noteq> [] \<and>
    hd (Split pattern (CHR ''/'') ! j) = CHR ''*'' \<longrightarrow>
      snd (ParseParameter match pattern) = Some (Error errBadPattern)) \<and>
   ((Contains pattern (CHR '':'') \<or> Contains pattern (CHR ''*'')) \<and>
    length (Split match (CHR ''/'')) < length (Split pattern (CHR ''/'')) \<longrightarrow>
      ParseParameter match pattern = ([], Some (Error errBadPattern)))"
proof -
  have a: "m \<in> set AllMethod \<longrightarrow>
      Router_find (fst (Router_addRoute new_Router m ''/hello/*'' h ws)) m ''/hello/a/b''
        = Inr (Some \<lparr>path = ''/hello/*'', handler = h, middleware = ws\<rparr>)"
    by (simp add: Router_find_one_route trie_defs)
  have b: "ParseParameter ''/hello/a/b'' ''/hello/*'' = (''catch:a/b'', None)"
    by (simp add: extract_defs)
  have c: "Parameter_Load Map.empty ''catch:a/b'' = [''catch'' \<mapsto> ''a/b'']"
    by (simp add: Parameter_Load_def Split_def Let_def)
  have d: "Split pattern (CHR ''/'') = pre @ [''*''] \<and>
    (\<forall>v\<in>set pre. v = [] \<or> (hd v \<noteq> CHR '':'' \<and> hd v \<noteq> CHR ''*'')) \<and>
    length pre < length (Split match (CHR ''/'')) \<longrightarrow>
      ParseParameter match pattern =
        (''catch:'' @ Join (drop (length pre) (Split match (CHR ''/''))) (CHR ''/''), None)"
    using ParseParameter_unnamed_catch_all [of pattern pre match] by blast
  have e: "k = s2 - 1 \<and> k \<le> length p1 \<longrightarrow>
      ParseParameter_loop p1 s2 k ((CHR ''*'' # name) # vs) result =
        ((if result = [] then [] else result @ '','')
           @ (if name = [] then ''catch'' else name) @ '':'' @ Join (drop k p1) (CHR ''/''), None)"
    using ParseParameter_loop_catch_all [of k s2 p1 name vs result] by blast
  have f: "j < length (Split pattern (CHR ''/'')) - 1 \<and> Split pattern (CHR ''/'') ! j \<noteq> [] \<and>
    hd (Split pattern (CHR ''/'') ! j) = CHR ''*'' \<longrightarrow>
      snd (ParseParameter match pattern) = Some (Error errBadPattern)"
    using ParseParameter_bad_catch_all [of j pattern match] by blast
  have g: "(Contains pattern (CHR '':'') \<or> Contains pattern (CHR ''*'')) \<and>
    length (Split match (CHR ''/'')) < length (Split pattern (CHR ''/'')) \<longrightarrow>
      ParseParameter match pattern = ([], Some (Error errBadPattern))"
    by (simp add: ParseParameter_def Let_def)
  from a b c d e f g show ?thesis by (intro conjI)
qed

theorem unnamed_catch_all_witness:
  "Router_find (fst (Router_addRoute new_Router ''GET'' ''/hello/*'' (1::nat) [])) ''GET'' ''/hello/a/b''
     = Inr (Some \<lparr>path = ''/hello/*'', handler = 1, middleware = []\<rparr>) \<and>
   ParseParameter ''/hello/a/b'' ''/hello/*'' = (''catch:a/b'', None) \<and>
   ParseParameter_loop ['''', ''hello'', ''a'', ''b''] 3 2 [''*rest''] ''x:1''
     = (''x:1,rest:a/b'', None) \<and>
   snd (ParseParameter ''/a/b/c'' ''/*x/b/c'') = Some (Error errBadPattern) \<and>
   ParseParameter ''/x'' ''/a/*'' = ([], Some (Error errBadPattern))"
proof -
  note t1 = unnamed_catch_all
    [where m = "''GET''" and h = "1::nat" and ws = "[]"
       and pattern = "''/hello/*''" and pre = "['''', ''hello'']" and match = "''/hello/a/b''"
       and k = 2 and ?s2.0 = 3 and ?p1.0 = "['''', ''hello'', ''a'', ''b'']"
       and name = "''rest''" and vs = "[]" and result = "''x:1''" and j = 0]
  note t2 = unnamed_catch_all
    [where m = "''GET''" and h = "1::nat" and ws = "[]"
       and pattern = "''/*x/b/c''" and pre = "[]" and match = "''/a/b/c''"
       and k = 2 and ?s2.0 = 3 and ?p1.0 = "['''', ''hello'', ''a'', ''b'']"
       and name = "''rest''" and vs = "[]" and result = "''x:1''" and j = 1]
  note t3 = unnamed_catch_all
    [where m = "''GET''" and h = "1::nat" and ws = "[]"
       and pattern = "''/a/*''" and pre = "[]" and match = "''/x''"
       and k = 2 and ?s2.0 = 3 and ?p1.0 = "['''', ''hello'', ''a'', ''b'']"
       and name = "''rest''" and vs = "[]" and result = "''x:1''" and j = 0]
  have h1: "Split ''/hello/*'' (CHR ''/'') = ['''', ''hello''] @ [''*''] \<and>
      (\<forall>v\<in>set ['''', ''hello'']. v = [] \<or> (hd v \<noteq> CHR '':'' \<and> hd v \<noteq> CHR ''*'')) \<and>
      length ['''', ''hello''] < length (Split ''/hello/a/b'' (CHR ''/''))"
    by (simp add: Split_def)
  have h2: "(2::nat) = 3 - 1 \<and> 2 \<le> length ['''', ''hello'', ''a'', ''b'']"
    by simp
  have h3: "1 < length (Split ''/*x/b/c'' (CHR ''/'')) - 1 \<and>
      Split ''/*x/b/c'' (CHR ''/'') ! 1 \<noteq> [] \<and>
      hd (Split ''/*x/b/c'' (CHR ''/'') ! 1) = CHR ''*''"
    by (simp add: Split_def)
  have h4: "(Contains ''/a/*'' (CHR '':'') \<or> Contains ''/a/*'' (CHR ''*'')) \<and>
      length (Split ''/x'' (CHR ''/'')) < length (Split ''/a/*'' (CHR ''/''))"
    by (simp add: Split_def Contains_def)
  note a = t1 [THEN conjunct1, THEN mp, OF GET_method]
  note d = t1 [THEN conjunct2, THEN conjunct2, THEN conjunct2, THEN conjunct1, THEN mp, OF h1]
  note e = t1 [THEN conjunct2, THEN conjunct2, THEN conjunct2, THEN conjunct2, THEN conjunct1,
               THEN mp, OF h2]
  note f = t2 [THEN conjunct2, THEN conjunct2, THEN conjunct2, THEN conjunct2, THEN conjunct2,
               THEN conjunct1, THEN mp, OF h3]
  note g = t3 [THEN conjunct2, THEN conjunct2, THEN conjunct2, THEN conjunct2, THEN conjunct2,
               THEN conjunct2, THEN mp, OF h4]
  have "ParseParameter ''/hello/a/b'' ''/hello/*'' = (''catch:a/b'', None)"
    using d by (simp add: Split_def)
  moreover have "ParseParameter_loop ['''', ''hello'', ''a'', ''b''] 3 2 [''*rest''] ''x:1''
     = (''x:1,rest:a/b'', None)"
    unfolding e by simp
  ultimately show ?thesis using a f g by (intro conjI)
qed

section \<open>What insert keeps\<close>

lemma all_nodes_iff: "all_nodes P node \<longleftrightarrow> P node \<and> (\<forall>x\<in>set (children node). all_nodes P x)"
  by (cases node) simp

lemma findChild_loop_None: "findChild_loop cs k = None \<longleftrightarrow> k \<notin> key ` set cs"
  by (induction cs) auto

lemma findChild_loop_Some: "findChild_loop cs k = Some c \<Longrightarrow> c \<in> set cs \<and> key c = k"
  by (induction cs) (auto split: if_splits)

lemma store_child_shape:
  "findChild_loop cs k = Some c \<Longrightarrow> key c' = k \<Longrightarrow> classify c' = classify c \<Longrightarrow>
     shape (store_child cs k c') = shape cs"
  by (induction cs) (auto simp: shape_def split: if_splits)

lemma store_child_set: "set (store_child cs k c') \<subseteq> insert c' (set cs)"
  by (induction cs) auto

lemma store_child_new:
  "findChild_loop cs k = None \<Longrightarrow> key d = k \<Longrightarrow> store_child (cs @ [d]) k c' = cs @ [c']"
  by (induction cs) (auto split: if_splits)

lemma Node_branch_eq:
  "Node_branch node k v cls =
     (Node (key node) (val node) (classify node)
        (children node @ [Node k v (case cls of [] \<Rightarrow> NodeRoot | c # _ \<Rightarrow> c) []]),
      Node k v (case cls of [] \<Rightarrow> NodeRoot | c # _ \<Rightarrow> c) [])"
  by (simp add: Node_branch_def Let_def)

lemma insert_loop_fields:
  "key (insert_loop n i level cs v) = key level \<and>
   val (insert_loop n i level cs v) = val level \<and>
   classify (insert_loop n i level cs v) = classify level"
proof (induction cs arbitrary: level i)
  case Nil
  show ?case by (simp add: Node_branch_eq)
next
  case (Cons ch cs)
  show ?case
    by (simp add: Let_def with_child_def Node_branch_eq Cons.IH split: option.splits)
qed

text \<open>The three ways one character of the pattern is handled.\<close>

lemma insert_loop_skip:
  assumes "classify level = nodeParam \<and> i < n \<and> ch \<noteq> CHR ''/''"
  shows "insert_loop n i level (ch # cs) v = insert_loop n (Suc i) level cs v"
  using assms by (simp add: Let_def)

lemma insert_loop_found:
  assumes "\<not> (classify level = nodeParam \<and> i < n \<and> ch \<noteq> CHR ''/'')"
    and "findChild_loop (children level) ch = Some c"
  shows "insert_loop n i level (ch # cs) v =
           Node (key level) (val level) (classify level)
             (store_child (children level) ch (insert_loop n (Suc i) c cs v))"
  using assms by (auto simp add: Let_def Node_findChild_def with_child_def)

lemma insert_loop_new:
  assumes "\<not> (classify level = nodeParam \<and> i < n \<and> ch \<noteq> CHR ''/'')"
    and "findChild_loop (children level) ch = None"
  shows "insert_loop n i level (ch # cs) v =
           Node (key level) (val level) (classify level)
             (children level @ [insert_loop n (Suc i) (Node ch None (classify_of ch) []) cs v])"
  using assms
  by (auto simp add: Let_def Node_findChild_def with_child_def Node_branch_eq store_child_new)

text \<open>
  A property of the shape of the children of every node is kept by \<^const>\<open>insert_loop\<close>
  when it holds of the empty shape and is kept by both ways of adding a child: a
  terminal child at the end of the pattern, and a child for a character that no child
  is keyed by.
\<close>

lemma insert_loop_all_nodes:
  assumes empty: "Q []"
    and terminal: "\<And>sh. Q sh \<Longrightarrow> Q (sh @ [(eof, nodeEnd)])"
    and fresh: "\<And>sh ch. ch \<in> A \<Longrightarrow> Q sh \<Longrightarrow> ch \<notin> fst ` set sh \<Longrightarrow> Q (sh @ [(ch, classify_of ch)])"
  shows "set cs \<subseteq> A \<Longrightarrow> all_nodes (\<lambda>x. Q (shape (children x))) level \<Longrightarrow>
           all_nodes (\<lambda>x. Q (shape (children x))) (insert_loop n i level cs v)"
proof (induction cs arbitrary: level i)
  case Nil
  let ?P = "\<lambda>x. Q (shape (children x))"
  from Nil.prems(2) have l: "Q (shape (children level))" "\<forall>x\<in>set (children level). all_nodes ?P x"
    using all_nodes_iff [of ?P level] by simp_all
  have "insert_loop n i level [] v =
          Node (key level) (val level) (classify level) (children level @ [Node eof v nodeEnd []])"
    by (simp add: Node_branch_eq)
  moreover have "Q (shape (children level @ [Node eof v nodeEnd []]))"
    using terminal [OF l(1)] by (simp add: shape_def)
  moreover have "all_nodes ?P (Node eof v nodeEnd [])"
    using empty by (simp add: shape_def)
  ultimately show ?case using l(2) by simp
next
  case (Cons ch cs)
  let ?P = "\<lambda>x. Q (shape (children x))"
  from Cons.prems(1) have A: "ch \<in> A" "set cs \<subseteq> A" by simp_all
  from Cons.prems(2) have l: "Q (shape (children level))" "\<forall>x\<in>set (children level). all_nodes ?P x"
    using all_nodes_iff [of ?P level] by simp_all
  show ?case
  proof (cases "classify level = nodeParam \<and> i < n \<and> ch \<noteq> CHR ''/''")
    case True
    then have "insert_loop n i level (ch # cs) v = insert_loop n (Suc i) level cs v"
      by (rule insert_loop_skip)
    with Cons.IH [OF A(2) Cons.prems(2)] show ?thesis by simp
  next
    case False
    show ?thesis
    proof (cases "findChild_loop (children level) ch")
      case (Some c)
      let ?X = "insert_loop n (Suc i) c cs v"
      from Some have c: "c \<in> set (children level)" "key c = ch"
        using findChild_loop_Some by blast+
      with l(2) have "all_nodes ?P c" by simp
      then have X: "all_nodes ?P ?X" by (rule Cons.IH [OF A(2)])
      have eq: "insert_loop n i level (ch # cs) v =
                  Node (key level) (val level) (classify level) (store_child (children level) ch ?X)"
        using False Some by (rule insert_loop_found)
      have "shape (store_child (children level) ch ?X) = shape (children level)"
        using Some c(2) by (intro store_child_shape) (simp_all add: insert_loop_fields)
      with l(1) have "Q (shape (store_child (children level) ch ?X))" by simp
      moreover have "\<forall>x\<in>set (store_child (children level) ch ?X). all_nodes ?P x"
        using store_child_set [of "children level" ch ?X] l(2) X by auto
      ultimately show ?thesis using eq by simp
    next
      case None
      let ?d = "Node ch None (classify_of ch) []"
      let ?X = "insert_loop n (Suc i) ?d cs v"
      have "all_nodes ?P ?d" using empty by (simp add: shape_def)
      then have X: "all_nodes ?P ?X" by (rule Cons.IH [OF A(2)])
      have eq: "insert_loop n i level (ch # cs) v =
                  Node (key level) (val level) (classify level) (children level @ [?X])"
        using False None by (rule insert_loop_new)
      from None have "ch \<notin> fst ` set (shape (children level))"
        by (simp add: findChild_loop_None shape_def image_image)
      from fresh [OF A(1) l(1) this] have "Q (shape (children level @ [?X]))"
        by (simp add: shape_def insert_loop_fields)
      then show ?thesis using eq l(2) X by simp
    qed
  qed
qed

lemma Node_insert_all_nodes:
  assumes "Q []"
    and "\<And>sh. Q sh \<Longrightarrow> Q (sh @ [(eof, nodeEnd)])"
    and "\<And>sh ch. ch \<in> A \<Longrightarrow> Q sh \<Longrightarrow> ch \<notin> fst ` set sh \<Longrightarrow> Q (sh @ [(ch, classify_of ch)])"
    and "set pattern \<subseteq> A"
    and "all_nodes (\<lambda>x. Q (shape (children x))) node"
  shows "all_nodes (\<lambda>x. Q (shape (children x))) (fst (Node_insert node pattern v))"
  using insert_loop_all_nodes [of Q A pattern node "length pattern" 0 v, OF assms(1,2,3,4,5)] assms(5)
  by (simp add: Node_insert_def)


lemma insert_all_all_nodes:
  assumes "Q []"
    and "\<And>sh. Q sh \<Longrightarrow> Q (sh @ [(eof, nodeEnd)])"
    and "\<And>sh ch. ch \<in> A \<Longrightarrow> Q sh \<Longrightarrow> ch \<notin> fst ` set sh \<Longrightarrow> Q (sh @ [(ch, classify_of ch)])"
  shows "\<forall>(pattern, v)\<in>set regs. set pattern \<subseteq> A \<Longrightarrow>
         all_nodes (\<lambda>x. Q (shape (children x))) node \<Longrightarrow>
         all_nodes (\<lambda>x. Q (shape (children x))) (fst (insert_all node regs))"
proof (induction regs arbitrary: node)
  case Nil
  then show ?case by simp
next
  case (Cons reg regs)
  obtain pattern v where reg: "reg = (pattern, v)" by (cases reg)
  obtain node' err where ins: "Node_insert node pattern v = (node', err)"
    by (cases "Node_insert node pattern v")
  from Cons.prems(1) reg have p: "set pattern \<subseteq> A" "\<forall>(pattern, v)\<in>set regs. set pattern \<subseteq> A"
    by simp_all
  have n': "all_nodes (\<lambda>x. Q (shape (children x))) node'"
    using Node_insert_all_nodes [of Q A pattern node v, OF assms p(1) Cons.prems(2)] ins by simp
  show ?case
  proof (cases err)
    case None
    with reg ins Cons.IH [OF p(2) n'] show ?thesis by simp
  next
    case (Some e)
    with reg ins n' show ?thesis by simp
  qed
qed


section \<open>Keys among siblings\<close>

lemma scanned_keys_distinct_shape:
  "scanned_keys_distinct node \<longleftrightarrow>
     distinct (map fst (filter (\<lambda>p. snd p \<noteq> nodeEnd) (shape (children node))))"
  by (simp add: scanned_keys_distinct_def shape_def filter_map comp_def)

lemma classify_of_not_nodeEnd: "classify_of ch \<noteq> nodeEnd"
  by (simp add: classify_of_def)

lemma insert_all_scanned_keys_distinct:
  "all_nodes scanned_keys_distinct (fst (insert_all new_root regs))"
proof -
  let ?Q = "\<lambda>sh :: (char \<times> Classify) list. distinct (map fst (filter (\<lambda>p. snd p \<noteq> nodeEnd) sh))"
  have e: "scanned_keys_distinct = (\<lambda>x. ?Q (shape (children x)))"
    by (rule ext) (rule scanned_keys_distinct_shape)
  have 1: "?Q []" by simp
  have 2: "?Q (sh @ [(eof, nodeEnd)])" if "?Q sh" for sh using that by simp
  have 3: "?Q (sh @ [(ch, classify_of ch)])"
    if "ch \<in> UNIV" "?Q sh" "ch \<notin> fst ` set sh" for sh ch
    using that by (auto simp add: classify_of_not_nodeEnd)
  have 4: "\<forall>(pattern, v)\<in>set regs. set pattern \<subseteq> UNIV" by simp
  have 5: "all_nodes (\<lambda>x. ?Q (shape (children x))) new_root"
    by (simp add: new_root_def shape_def)
  from insert_all_all_nodes [of ?Q UNIV regs new_root, OF 1 2 3 4 5]
  show ?thesis unfolding e by simp
qed

text \<open>
  C3. The specification says that in every trie built by successful insertions from a fresh root
  the keys of the children of each node are pairwise distinct, the sentinel key
  included. Registering \<^verbatim>\<open>/a\<close> twice succeeds twice and leaves the node for \<^verbatim>\<open>a\<close> with
  two terminal children, both keyed by the sentinel.
\<close>

theorem sibling_keys_counterexample:
  "snd (insert_all new_root
          [(''/a'', Some \<lparr>path = ''/a'', handler = 1::nat, middleware = []\<rparr>),
           (''/a'', Some \<lparr>path = ''/a'', handler = 2, middleware = []\<rparr>)]) = None \<and>
   \<not> all_nodes sibling_keys_distinct
       (fst (insert_all new_root
          [(''/a'', Some \<lparr>path = ''/a'', handler = 1::nat, middleware = []\<rparr>),
           (''/a'', Some \<lparr>path = ''/a'', handler = 2, middleware = []\<rparr>)]))"
  by (simp add: trie_defs sibling_keys_distinct_def)

text \<open>
  C3, as the code has it. In every trie built by a sequence of successful insertions
  from a fresh root (the trie that \<^const>\<open>insert_all\<close> returns, which is the one after the
  successful insertions), the keys of those children of each node that are not
  terminal nodes are pairwise distinct: the loop of \<^verbatim>\<open>insert\<close> searches the children
  before it creates one, the terminal node is appended without a search.
\<close>

theorem scanned_sibling_keys_distinct:
  "all_nodes scanned_keys_distinct (fst (insert_all new_root regs))"
  by (rule insert_all_scanned_keys_distinct)

theorem scanned_sibling_keys_distinct_witness:
  "snd (insert_all new_root
          [(''/a'', Some \<lparr>path = ''/a'', handler = 1::nat, middleware = []\<rparr>),
           (''/a'', Some \<lparr>path = ''/a'', handler = 2, middleware = []\<rparr>)]) = None \<and>
   all_nodes scanned_keys_distinct
       (fst (insert_all new_root
          [(''/a'', Some \<lparr>path = ''/a'', handler = 1::nat, middleware = []\<rparr>),
           (''/a'', Some \<lparr>path = ''/a'', handler = 2, middleware = []\<rparr>)]))"
proof -
  have "snd (insert_all new_root
          [(''/a'', Some \<lparr>path = ''/a'', handler = 1::nat, middleware = []\<rparr>),
           (''/a'', Some \<lparr>path = ''/a'', handler = 2, middleware = []\<rparr>)]) = None"
    by (simp add: trie_defs)
  with scanned_sibling_keys_distinct
    [of "[(''/a'', Some \<lparr>path = ''/a'', handler = 1::nat, middleware = []\<rparr>),
          (''/a'', Some \<lparr>path = ''/a'', handler = 2, middleware = []\<rparr>)]"]
  show ?thesis by simp
qed

section \<open>Registering a pattern twice\<close>

lemma alike_val: "alike a b \<Longrightarrow> val a = val b"
  by (erule alike.cases) simp

lemma alike_child:
  assumes "alike a b"
  shows "(Node_findChild a k = None \<and> Node_findChild b k = None) \<or>
         (\<exists>c d. Node_findChild a k = Some c \<and> Node_findChild b k = Some d \<and> alike c d)"
  using assms by (cases rule: alike.cases) blast

lemma alike_refl: "alike a a"
proof (induction a)
  case (Node k v c cs)
  show ?case
  proof (rule alike_intro, simp, rule allI)
    fix k'
    show "(Node_findChild (Node k v c cs) k' = None \<and> Node_findChild (Node k v c cs) k' = None) \<or>
          (\<exists>x y. Node_findChild (Node k v c cs) k' = Some x \<and>
                 Node_findChild (Node k v c cs) k' = Some y \<and> alike x y)"
    proof (cases "findChild_loop cs k'")
      case None
      then show ?thesis by (simp add: Node_findChild_def)
    next
      case (Some x)
      then have "x \<in> set cs" using findChild_loop_Some by blast
      then have "alike x x" by (rule Node.IH)
      with Some show ?thesis by (simp add: Node_findChild_def)
    qed
  qed
qed

lemma alike_same_children:
  assumes "val a = val b" and "\<And>k. Node_findChild a k = Node_findChild b k"
  shows "alike a b"
proof (rule alike_intro [OF assms(1)], rule allI)
  fix k
  show "(Node_findChild a k = None \<and> Node_findChild b k = None) \<or>
        (\<exists>c d. Node_findChild a k = Some c \<and> Node_findChild b k = Some d \<and> alike c d)"
    using assms(2) [of k] alike_refl by (cases "Node_findChild b k") auto
qed

lemma findChild_loop_append:
  "findChild_loop (xs @ ys) k =
     (case findChild_loop xs k of Some c \<Rightarrow> Some c | None \<Rightarrow> findChild_loop ys k)"
  by (induction xs) auto

lemma findChild_loop_store:
  "key c' = k \<Longrightarrow>
   findChild_loop (store_child cs k c') k' =
     (if k' = k then (case findChild_loop cs k of None \<Rightarrow> None | Some _ \<Rightarrow> Some c')
      else findChild_loop cs k')"
  by (induction cs) auto

lemma alike_store:
  assumes "findChild_loop cs ch = Some X" and "alike X Y" and "key Y = ch"
  shows "alike (Node k v c cs) (Node k v c (store_child cs ch Y))"
proof (rule alike_intro, simp, rule allI)
  fix k'
  show "(Node_findChild (Node k v c cs) k' = None \<and>
         Node_findChild (Node k v c (store_child cs ch Y)) k' = None) \<or>
        (\<exists>x y. Node_findChild (Node k v c cs) k' = Some x \<and>
               Node_findChild (Node k v c (store_child cs ch Y)) k' = Some y \<and> alike x y)"
  proof (cases "k' = ch")
    case True
    with assms show ?thesis by (simp add: Node_findChild_def findChild_loop_store)
  next
    case False
    then have "findChild_loop (store_child cs ch Y) k' = findChild_loop cs k'"
      using assms(3) by (simp add: findChild_loop_store)
    then show ?thesis
      using alike_refl by (cases "findChild_loop cs k'") (auto simp add: Node_findChild_def)
  qed
qed

text \<open>
  The second insertion of a pattern walks to the node where the first one ended and
  appends a terminal child behind the one that is already there.
\<close>

lemma insert_loop_twice_alike:
  "alike (insert_loop n i level cs v1) (insert_loop n i (insert_loop n i level cs v1) cs v2)"
proof (induction cs arbitrary: level i)
  case Nil
  let ?A = "Node (key level) (val level) (classify level) (children level @ [Node eof v1 nodeEnd []])"
  let ?B = "Node (key level) (val level) (classify level)
              ((children level @ [Node eof v1 nodeEnd []]) @ [Node eof v2 nodeEnd []])"
  have a: "insert_loop n i level [] v1 = ?A"
    by (simp add: Node_branch_eq)
  have b: "insert_loop n i ?A [] v2 = ?B"
    by (simp add: Node_branch_eq)
  have "alike ?A ?B"
    by (rule alike_same_children)
       (auto simp add: Node_findChild_def findChild_loop_append split: option.splits)
  then show ?case by (simp only: a b)
next
  case (Cons ch cs)
  let ?a = "insert_loop n i level (ch # cs) v1"
  show ?case
  proof (cases "classify level = nodeParam \<and> i < n \<and> ch \<noteq> CHR ''/''")
    case True
    then have a: "?a = insert_loop n (Suc i) level cs v1" by (rule insert_loop_skip)
    from True have "classify ?a = nodeParam \<and> i < n \<and> ch \<noteq> CHR ''/''"
      by (simp only: insert_loop_fields) simp
    then have "insert_loop n i ?a (ch # cs) v2 = insert_loop n (Suc i) ?a cs v2"
      by (rule insert_loop_skip)
    with a Cons.IH [of "Suc i" level] show ?thesis by simp
  next
    case False
    have "\<exists>cs1 X. ?a = Node (key level) (val level) (classify level) cs1 \<and>
            findChild_loop cs1 ch = Some X \<and>
            (\<exists>l. X = insert_loop n (Suc i) l cs v1)"
    proof (cases "findChild_loop (children level) ch")
      case (Some c)
      let ?X = "insert_loop n (Suc i) c cs v1"
      from Some have "key c = ch" using findChild_loop_Some by blast
      then have "key ?X = ch" by (simp add: insert_loop_fields)
      then have "findChild_loop (store_child (children level) ch ?X) ch = Some ?X"
        using Some by (simp add: findChild_loop_store)
      with insert_loop_found [OF False Some, of cs v1] show ?thesis by blast
    next
      case None
      let ?X = "insert_loop n (Suc i) (Node ch None (classify_of ch) []) cs v1"
      have "key ?X = ch" by (simp add: insert_loop_fields)
      then have "findChild_loop (children level @ [?X]) ch = Some ?X"
        using None by (simp add: findChild_loop_append)
      with insert_loop_new [OF False None, of cs v1] show ?thesis by blast
    qed
    then obtain cs1 X l where a: "?a = Node (key level) (val level) (classify level) cs1"
      and X: "findChild_loop cs1 ch = Some X" and l: "X = insert_loop n (Suc i) l cs v1"
      by blast
    let ?Y = "insert_loop n (Suc i) X cs v2"
    from X have "key X = ch" using findChild_loop_Some by blast
    then have kY: "key ?Y = ch" by (simp add: insert_loop_fields)
    have XY: "alike X ?Y" unfolding l by (rule Cons.IH)
    from False have "\<not> (classify ?a = nodeParam \<and> i < n \<and> ch \<noteq> CHR ''/'')"
      by (simp only: insert_loop_fields) simp
    moreover from a X have "findChild_loop (children ?a) ch = Some X" by simp
    ultimately have "insert_loop n i ?a (ch # cs) v2 =
             Node (key ?a) (val ?a) (classify ?a) (store_child (children ?a) ch ?Y)"
      by (rule insert_loop_found)
    also have "\<dots> = Node (key level) (val level) (classify level) (store_child cs1 ch ?Y)"
      using a by simp
    finally have b: "insert_loop n i ?a (ch # cs) v2 =
             Node (key level) (val level) (classify level) (store_child cs1 ch ?Y)" .
    have "alike (Node (key level) (val level) (classify level) cs1)
            (Node (key level) (val level) (classify level) (store_child cs1 ch ?Y))"
      by (rule alike_store [OF X XY kY])
    then show ?thesis by (simp only: b) (simp only: a)
  qed
qed

lemma find_loop_alike:
  "alike a b \<Longrightarrow>
     (\<exists>e. find_loop n k a isParam q = Inl e \<and> find_loop n k b isParam q = Inl e) \<or>
     (\<exists>x y. find_loop n k a isParam q = Inr x \<and> find_loop n k b isParam q = Inr y \<and> alike x y)"
proof (induction q arbitrary: a b k isParam)
  case Nil
  then show ?case by simp
next
  case (Cons ch q)
  show ?case
  proof (cases "isParam \<and> k < n \<and> ch \<noteq> CHR ''/''")
    case True
    then have "find_loop n k a isParam (ch # q) = find_loop n (Suc k) a isParam q"
      "find_loop n k b isParam (ch # q) = find_loop n (Suc k) b isParam q"
      by (simp_all add: Let_def)
    with Cons.IH [OF Cons.prems, of "Suc k" isParam] show ?thesis by simp
  next
    case False
    note c1 = alike_child [OF Cons.prems, of "CHR '':''"]
    note c2 = alike_child [OF Cons.prems, of "CHR ''*''"]
    note c3 = alike_child [OF Cons.prems, of ch]
    from c1 show ?thesis
    proof
      assume "\<exists>c d. Node_findChild a (CHR '':'') = Some c \<and>
                Node_findChild b (CHR '':'') = Some d \<and> alike c d"
      then obtain c d where p: "Node_findChild a (CHR '':'') = Some c"
        "Node_findChild b (CHR '':'') = Some d" "alike c d" by blast
      from find_loop_parameter_first [OF False p(1), of q] find_loop_parameter_first [OF False p(2), of q]
        Cons.IH [OF p(3), of "Suc k" True]
      show ?thesis by simp
    next
      assume n1: "Node_findChild a (CHR '':'') = None \<and> Node_findChild b (CHR '':'') = None"
      from c2 show ?thesis
      proof
        assume "\<exists>c d. Node_findChild a (CHR ''*'') = Some c \<and>
                  Node_findChild b (CHR ''*'') = Some d \<and> alike c d"
        then obtain c d where p: "Node_findChild a (CHR ''*'') = Some c"
          "Node_findChild b (CHR ''*'') = Some d" "alike c d" by blast
        from n1 p False
          find_loop_catch_all_second [of isParam k n ch a c q]
          find_loop_catch_all_second [of isParam k n ch b d q]
        show ?thesis by simp
      next
        assume n2: "Node_findChild a (CHR ''*'') = None \<and> Node_findChild b (CHR ''*'') = None"
        from c3 show ?thesis
        proof
          assume "\<exists>c d. Node_findChild a ch = Some c \<and> Node_findChild b ch = Some d \<and> alike c d"
          then obtain c d where p: "Node_findChild a ch = Some c"
            "Node_findChild b ch = Some d" "alike c d" by blast
          have "find_loop n k a isParam (ch # q) = find_loop n (Suc k) c False q"
            using False n1 n2 p(1) by (auto simp add: Let_def)
          moreover have "find_loop n k b isParam (ch # q) = find_loop n (Suc k) d False q"
            using False n1 n2 p(2) by (auto simp add: Let_def)
          ultimately show ?thesis using Cons.IH [OF p(3), of "Suc k" False] by simp
        next
          assume n3: "Node_findChild a ch = None \<and> Node_findChild b ch = None"
          have "find_loop n k a isParam (ch # q) = Inl errRouteNotFound"
            using False n1 n2 n3 by (auto simp add: Let_def)
          moreover have "find_loop n k b isParam (ch # q) = Inl errRouteNotFound"
            using False n1 n2 n3 by (auto simp add: Let_def)
          ultimately show ?thesis by simp
        qed
      qed
    qed
  qed
qed

lemma resolve_alike:
  assumes "alike a b"
  shows "resolve a = resolve b"
proof -
  from alike_child [OF assms, of eof] show ?thesis
  proof
    assume "\<exists>c d. Node_findChild a eof = Some c \<and> Node_findChild b eof = Some d \<and> alike c d"
    then show ?thesis using alike_val by (auto simp add: resolve_def)
  next
    assume n1: "Node_findChild a eof = None \<and> Node_findChild b eof = None"
    from alike_child [OF assms, of "CHR ''/''"] show ?thesis
    proof
      assume "Node_findChild a (CHR ''/'') = None \<and> Node_findChild b (CHR ''/'') = None"
      with n1 show ?thesis by (simp add: resolve_def)
    next
      assume "\<exists>c d. Node_findChild a (CHR ''/'') = Some c \<and>
                Node_findChild b (CHR ''/'') = Some d \<and> alike c d"
      then obtain c d where p: "Node_findChild a (CHR ''/'') = Some c"
        "Node_findChild b (CHR ''/'') = Some d" "alike c d" by blast
      from alike_child [OF p(3), of eof] show ?thesis
      proof
        assume "Node_findChild c eof = None \<and> Node_findChild d eof = None"
        with n1 p show ?thesis by (simp add: resolve_def)
      next
        assume "\<exists>x y. Node_findChild c eof = Some x \<and> Node_findChild d eof = Some y \<and> alike x y"
        with n1 p show ?thesis using alike_val by (auto simp add: resolve_def)
      qed
    qed
  qed
qed

lemma Node_find_alike:
  assumes "alike a b" and "classify a = classify b"
  shows "Node_find a q = Node_find b q"
  using find_loop_alike [OF assms(1), of "length q" 0 False q] assms(2) resolve_alike
  by (auto simp add: Node_find_def)

lemma Node_insert_twice:
  assumes "classify node = NodeRoot" and "pattern \<noteq> []" and "hd pattern = CHR ''/''"
  shows "snd (Node_insert node pattern v1) = None"
    and "snd (Node_insert (fst (Node_insert node pattern v1)) pattern v2) = None"
    and "Node_find (fst (Node_insert (fst (Node_insert node pattern v1)) pattern v2)) q =
           Node_find (fst (Node_insert node pattern v1)) q"
proof -
  let ?a = "insert_loop (length pattern) 0 node pattern v1"
  from assms have a: "Node_insert node pattern v1 = (?a, None)"
    by (simp add: Node_insert_def)
  from assms have b: "Node_insert ?a pattern v2 = (insert_loop (length pattern) 0 ?a pattern v2, None)"
    by (simp add: Node_insert_def insert_loop_fields)
  show "snd (Node_insert node pattern v1) = None" using a by simp
  show "snd (Node_insert (fst (Node_insert node pattern v1)) pattern v2) = None"
    using a b by simp
  have "alike ?a (insert_loop (length pattern) 0 ?a pattern v2)"
    by (rule insert_loop_twice_alike)
  then have "Node_find (insert_loop (length pattern) 0 ?a pattern v2) q = Node_find ?a q"
    by (intro Node_find_alike [symmetric]) (simp_all add: insert_loop_fields)
  then show "Node_find (fst (Node_insert (fst (Node_insert node pattern v1)) pattern v2)) q =
           Node_find (fst (Node_insert node pattern v1)) q"
    using a b by simp
qed

lemma root_insert_new_root:
  "root_insert None p R = (Some (fst (Node_insert new_root p (Some R))), snd (Node_insert new_root p (Some R)))"
  by (simp add: root_insert_def split: prod.splits)

lemma root_insert_Some:
  "root_insert (Some node) p R = (Some (fst (Node_insert node p (Some R))), snd (Node_insert node p (Some R)))"
  by (simp add: root_insert_def split: prod.splits)

lemma Router_addRoute_twice:
  assumes "m \<in> set AllMethod" and "pattern \<noteq> []" and "hd pattern = CHR ''/''"
  shows "snd (Router_addRoute new_Router m pattern h1 w1) = None"
    and "snd (Router_addRoute (fst (Router_addRoute new_Router m pattern h1 w1)) m pattern h2 w2) = None"
    and "Router_find (fst (Router_addRoute (fst (Router_addRoute new_Router m pattern h1 w1))
             m pattern h2 w2)) m q =
         Router_find (fst (Router_addRoute new_Router m pattern h1 w1)) m q"
proof -
  have r: "classify (new_root :: 'a Node) = NodeRoot" by (simp add: new_root_def)
  note t = Node_insert_twice [OF r assms(2,3)]
  show "snd (Router_addRoute new_Router m pattern h1 w1) = None"
    using t(1) by (simp add: Router_addRoute_trie_of(2)[OF assms(1)] trie_of_new_Router root_insert_new_root)
  show "snd (Router_addRoute (fst (Router_addRoute new_Router m pattern h1 w1)) m pattern h2 w2) = None"
    using t(2)
    by (simp add: Router_addRoute_trie_of[OF assms(1)] trie_of_new_Router
          root_insert_new_root root_insert_Some)
  show "Router_find (fst (Router_addRoute (fst (Router_addRoute new_Router m pattern h1 w1))
             m pattern h2 w2)) m q =
         Router_find (fst (Router_addRoute new_Router m pattern h1 w1)) m q"
    using t(3)
    by (simp add: Router_find_trie_of Router_addRoute_trie_of(1)[OF assms(1)] trie_of_new_Router
          root_insert_new_root root_insert_Some root_find_def)
qed

text \<open>
  C2. The specification says that after two registrations of one pattern a lookup returns the
  route of the second. Registering \<^verbatim>\<open>/a\<close> twice succeeds twice, and the lookup of
  \<^verbatim>\<open>/a\<close> returns the route of the first registration: \<^verbatim>\<open>findChild\<close> returns the first
  child keyed by the sentinel, and the second terminal node is appended behind it.
\<close>

theorem last_registration_counterexample:
  "snd (Router_addRoute new_Router ''GET'' ''/a'' (1::nat) []) = None \<and>
   snd (Router_addRoute (fst (Router_addRoute new_Router ''GET'' ''/a'' (1::nat) []))
          ''GET'' ''/a'' 2 []) = None \<and>
   Router_find (fst (Router_addRoute (fst (Router_addRoute new_Router ''GET'' ''/a'' (1::nat) []))
          ''GET'' ''/a'' 2 [])) ''GET'' ''/a''
     = Inr (Some \<lparr>path = ''/a'', handler = 1, middleware = []\<rparr>) \<and>
   Router_find (fst (Router_addRoute (fst (Router_addRoute new_Router ''GET'' ''/a'' (1::nat) []))
          ''GET'' ''/a'' 2 [])) ''GET'' ''/a''
     \<noteq> Inr (Some \<lparr>path = ''/a'', handler = 2, middleware = []\<rparr>)"
proof -
  have "snd (Router_addRoute new_Router ''GET'' ''/a'' (1::nat) []) = None"
    by (simp add: Router_addRoute_trie_of(2)[OF GET_method] trie_of_new_Router trie_defs)
  moreover have "snd (Router_addRoute (fst (Router_addRoute new_Router ''GET'' ''/a'' (1::nat) []))
          ''GET'' ''/a'' 2 []) = None"
    by (simp add: Router_addRoute_trie_of[OF GET_method] trie_of_new_Router trie_defs)
  moreover have f: "Router_find (fst (Router_addRoute (fst (Router_addRoute new_Router ''GET'' ''/a'' (1::nat) []))
          ''GET'' ''/a'' 2 [])) ''GET'' ''/a''
     = Inr (Some \<lparr>path = ''/a'', handler = 1, middleware = []\<rparr>)"
    by (simp add: Router_find_two_routes [OF GET_method] trie_defs)
  moreover have "Router_find (fst (Router_addRoute (fst (Router_addRoute new_Router ''GET'' ''/a'' (1::nat) []))
          ''GET'' ''/a'' 2 [])) ''GET'' ''/a''
     \<noteq> Inr (Some \<lparr>path = ''/a'', handler = 2, middleware = []\<rparr>)"
    unfolding f by simp
  ultimately show ?thesis by (intro conjI)
qed

text \<open>
  C2, as the code has it. For every pattern that starts with a slash, registered twice
  on one root with routes R1 and then R2, both insertions return no error, and every
  lookup after the second insertion returns what it returned after the first: the first
  registration stays in effect. The same holds on a new router for each method; there
  the lookups of \<^verbatim>\<open>/a\<close>, of \<^verbatim>\<open>/u/7\<close> for \<^verbatim>\<open>/u/:id\<close> and of \<^verbatim>\<open>/f/x/y\<close> for \<^verbatim>\<open>/f/*\<close> return
  the route registered first.
\<close>

theorem first_registration_stays:
  "(classify node = NodeRoot \<and> pattern \<noteq> [] \<and> hd pattern = CHR ''/'' \<longrightarrow>
      snd (Node_insert node pattern R1) = None \<and>
      snd (Node_insert (fst (Node_insert node pattern R1)) pattern R2) = None \<and>
      Node_find (fst (Node_insert (fst (Node_insert node pattern R1)) pattern R2)) q =
        Node_find (fst (Node_insert node pattern R1)) q) \<and>
   (m \<in> set AllMethod \<and> pattern \<noteq> [] \<and> hd pattern = CHR ''/'' \<longrightarrow>
      snd (Router_addRoute new_Router m pattern h1 w1) = None \<and>
      snd (Router_addRoute (fst (Router_addRoute new_Router m pattern h1 w1)) m pattern h2 w2) = None \<and>
      Router_find (fst (Router_addRoute (fst (Router_addRoute new_Router m pattern h1 w1))
          m pattern h2 w2)) m q =
        Router_find (fst (Router_addRoute new_Router m pattern h1 w1)) m q) \<and>
   (m \<in> set AllMethod \<longrightarrow>
      Router_find (fst (Router_addRoute (fst (Router_addRoute new_Router m ''/a'' h1 w1))
          m ''/a'' h2 w2)) m ''/a''
        = Inr (Some \<lparr>path = ''/a'', handler = h1, middleware = w1\<rparr>) \<and>
      Router_find (fst (Router_addRoute (fst (Router_addRoute new_Router m ''/u/:id'' h1 w1))
          m ''/u/:id'' h2 w2)) m ''/u/7''
        = Inr (Some \<lparr>path = ''/u/:id'', handler = h1, middleware = w1\<rparr>) \<and>
      Router_find (fst (Router_addRoute (fst (Router_addRoute new_Router m ''/f/*'' h1 w1))
          m ''/f/*'' h2 w2)) m ''/f/x/y''
        = Inr (Some \<lparr>path = ''/f/*'', handler = h1, middleware = w1\<rparr>))"
proof -
  have a: "classify node = NodeRoot \<and> pattern \<noteq> [] \<and> hd pattern = CHR ''/'' \<longrightarrow>
      snd (Node_insert node pattern R1) = None \<and>
      snd (Node_insert (fst (Node_insert node pattern R1)) pattern R2) = None \<and>
      Node_find (fst (Node_insert (fst (Node_insert node pattern R1)) pattern R2)) q =
        Node_find (fst (Node_insert node pattern R1)) q"
    by (simp add: Node_insert_twice)
  have b: "m \<in> set AllMethod \<and> pattern \<noteq> [] \<and> hd pattern = CHR ''/'' \<longrightarrow>
      snd (Router_addRoute new_Router m pattern h1 w1) = None \<and>
      snd (Router_addRoute (fst (Router_addRoute new_Router m pattern h1 w1)) m pattern h2 w2) = None \<and>
      Router_find (fst (Router_addRoute (fst (Router_addRoute new_Router m pattern h1 w1))
          m pattern h2 w2)) m q =
        Router_find (fst (Router_addRoute new_Router m pattern h1 w1)) m q"
    by (simp add: Router_addRoute_twice)
  have c: "m \<in> set AllMethod \<longrightarrow>
      Router_find (fst (Router_addRoute (fst (Router_addRoute new_Router m ''/a'' h1 w1))
          m ''/a'' h2 w2)) m ''/a''
        = Inr (Some \<lparr>path = ''/a'', handler = h1, middleware = w1\<rparr>)"
    by (simp add: Router_find_two_routes trie_defs)
  have d: "m \<in> set AllMethod \<longrightarrow>
      Router_find (fst (Router_addRoute (fst (Router_addRoute new_Router m ''/u/:id'' h1 w1))
          m ''/u/:id'' h2 w2)) m ''/u/7''
        = Inr (Some \<lparr>path = ''/u/:id'', handler = h1, middleware = w1\<rparr>)"
    by (simp add: Router_find_two_routes trie_defs)
  have e: "m \<in> set AllMethod \<longrightarrow>
      Router_find (fst (Router_addRoute (fst (Router_addRoute new_Router m ''/f/*'' h1 w1))
          m ''/f/*'' h2 w2)) m ''/f/x/y''
        = Inr (Some \<lparr>path = ''/f/*'', handler = h1, middleware = w1\<rparr>)"
    by (simp add: Router_find_two_routes trie_defs)
  from c d e have "m \<in> set AllMethod \<longrightarrow>
      Router_find (fst (Router_addRoute (fst (Router_addRoute new_Router m ''/a'' h1 w1))
          m ''/a'' h2 w2)) m ''/a''
        = Inr (Some \<lparr>path = ''/a'', handler = h1, middleware = w1\<rparr>) \<and>
      Router_find (fst (Router_addRoute (fst (Router_addRoute new_Router m ''/u/:id'' h1 w1))
          m ''/u/:id'' h2 w2)) m ''/u/7''
        = Inr (Some \<lparr>path = ''/u/:id'', handler = h1, middleware = w1\<rparr>) \<and>
      Router_find (fst (Router_addRoute (fst (Router_addRoute new_Router m ''/f/*'' h1 w1))
          m ''/f/*'' h2 w2)) m ''/f/x/y''
        = Inr (Some \<lparr>path = ''/f/*'', handler = h1, middleware = w1\<rparr>)"
    by (intro impI conjI) (erule mp [rotated], assumption)+
  with a b show ?thesis by (intro conjI)
qed

theorem first_registration_stays_witness:
  "Node_find (fst (Node_insert (fst (Node_insert new_root ''/a''
       (Some \<lparr>path = ''/a'', handler = 1::nat, middleware = []\<rparr>))) ''/a''
       (Some \<lparr>path = ''/a'', handler = 2, middleware = []\<rparr>))) ''/a''
     = Inr (Some \<lparr>path = ''/a'', handler = 1, middleware = []\<rparr>) \<and>
   snd (Router_addRoute (fst (Router_addRoute new_Router ''GET'' ''/a'' (1::nat) []))
       ''GET'' ''/a'' 2 []) = None \<and>
   Router_find (fst (Router_addRoute (fst (Router_addRoute new_Router ''GET'' ''/a'' (1::nat) []))
       ''GET'' ''/a'' 2 [])) ''GET'' ''/a''
     = Inr (Some \<lparr>path = ''/a'', handler = 1, middleware = []\<rparr>)"
proof -
  note t = first_registration_stays
    [where node = new_root and pattern = "''/a''" and q = "''/a''" and m = "''GET''"
       and ?R1.0 = "Some \<lparr>path = ''/a'', handler = 1::nat, middleware = []\<rparr>"
       and ?R2.0 = "Some \<lparr>path = ''/a'', handler = 2::nat, middleware = []\<rparr>"
       and ?h1.0 = "1::nat" and ?w1.0 = "[]" and ?h2.0 = "2::nat" and ?w2.0 = "[]"]
  have r: "classify (new_root :: nat Node) = NodeRoot \<and> ''/a'' \<noteq> [] \<and> hd ''/a'' = CHR ''/''"
    by (simp add: new_root_def)
  have g: "''GET'' \<in> set AllMethod \<and> ''/a'' \<noteq> [] \<and> hd ''/a'' = CHR ''/''"
    using GET_method by simp
  note eq = t [THEN conjunct1, THEN mp, OF r, THEN conjunct2, THEN conjunct2]
  note ok = t [THEN conjunct2, THEN conjunct1, THEN mp, OF g, THEN conjunct2, THEN conjunct1]
  note ex = t [THEN conjunct2, THEN conjunct2, THEN mp, OF GET_method, THEN conjunct1]
  have one: "Node_find (fst (Node_insert new_root ''/a''
       (Some \<lparr>path = ''/a'', handler = 1::nat, middleware = []\<rparr>))) ''/a''
     = Inr (Some \<lparr>path = ''/a'', handler = 1, middleware = []\<rparr>)"
    by (simp add: trie_defs)
  have "Node_find (fst (Node_insert (fst (Node_insert new_root ''/a''
       (Some \<lparr>path = ''/a'', handler = 1::nat, middleware = []\<rparr>))) ''/a''
       (Some \<lparr>path = ''/a'', handler = 2, middleware = []\<rparr>))) ''/a''
     = Inr (Some \<lparr>path = ''/a'', handler = 1, middleware = []\<rparr>)"
    unfolding eq by (rule one)
  then show ?thesis using ok ex by (intro conjI)
qed

section \<open>Resolution after the scan\<close>














section \<open>Loading the flat encoding back\<close>

lemma split_from_no_sep:
  "sep \<notin> set cur \<Longrightarrow> v \<in> set (split_from sep cur s) \<Longrightarrow> sep \<notin> set v"
proof (induction s arbitrary: cur)
  case Nil
  then show ?case by simp
next
  case (Cons a s)
  show ?case
  proof (cases "a = sep")
    case True
    with Cons.prems have "v = cur \<or> v \<in> set (split_from sep [] s)" by simp
    then show ?thesis
    proof
      assume "v = cur"
      with Cons.prems(1) show ?thesis by simp
    next
      assume "v \<in> set (split_from sep [] s)"
      then show ?thesis using Cons.IH [of "[]"] by simp
    qed
  next
    case False
    with Cons.prems have "v \<in> set (split_from sep (cur @ [a]) s)" "sep \<notin> set (cur @ [a])"
      by simp_all
    then show ?thesis using Cons.IH [of "cur @ [a]"] by blast
  qed
qed

lemma split_from_append_no_sep:
  "sep \<notin> set a \<Longrightarrow> split_from sep cur (a @ rest) = split_from sep (cur @ a) rest"
  by (induction a arbitrary: cur) auto

lemma split_from_Join:
  "xs \<noteq> [] \<Longrightarrow> \<forall>x\<in>set xs. sep \<notin> set x \<Longrightarrow>
     split_from sep cur (Join xs sep) = (cur @ hd xs) # tl xs"
proof (induction xs sep arbitrary: cur rule: Join.induct)
  case (1 sep)
  then show ?case by simp
next
  case (2 x sep)
  then have "split_from sep cur (x @ []) = split_from sep (cur @ x) []"
    by (intro split_from_append_no_sep) simp
  then show ?case by simp
next
  case (3 x y ys sep)
  from 3 have "split_from sep cur (x @ sep # Join (y # ys) sep) =
                 split_from sep (cur @ x) (sep # Join (y # ys) sep)"
    by (intro split_from_append_no_sep) simp
  moreover from 3 have "split_from sep [] (Join (y # ys) sep) = ([] @ hd (y # ys)) # tl (y # ys)"
    by (intro "3.IH") simp_all
  ultimately show ?case by simp
qed

lemma Split_entry:
  assumes "CHR '':'' \<notin> set n" and "CHR '':'' \<notin> set v"
  shows "Split (entry (n, v)) (CHR '':'') = [n, v]"
proof -
  have "split_from (CHR '':'') [] (n @ CHR '':'' # v) = split_from (CHR '':'') ([] @ n) (CHR '':'' # v)"
    using assms(1) by (rule split_from_append_no_sep)
  moreover have "split_from (CHR '':'') [] (v @ []) = split_from (CHR '':'') ([] @ v) []"
    using assms(2) by (rule split_from_append_no_sep)
  ultimately show ?thesis by (simp add: Split_def entry_def)
qed

lemma Load_loop_entries:
  "\<forall>p\<in>set ps. CHR '':'' \<notin> set (fst p) \<and> CHR '':'' \<notin> set (snd p) \<Longrightarrow>
     Load_loop m (map entry ps) = m ++ map_of (rev ps)"
proof (induction ps arbitrary: m)
  case Nil
  then show ?case by simp
next
  case (Cons p ps)
  obtain n v where p: "p = (n, v)" by (cases p)
  with Cons.prems have s: "Split (entry p) (CHR '':'') = [n, v]"
    by (simp add: Split_entry)
  from Cons.prems have "Load_loop (m(n \<mapsto> v)) (map entry ps) = m(n \<mapsto> v) ++ map_of (rev ps)"
    by (intro Cons.IH) simp
  moreover have "m(n \<mapsto> v) ++ map_of (rev ps) = m ++ map_of (rev (p # ps))"
    by (simp add: p map_add_assoc [symmetric] map_add_upd)
  ultimately show ?case using s by (simp add: Let_def)
qed

lemma Load_encode_pairs:
  assumes "\<forall>p\<in>set ps. benign (fst p) \<and> benign (snd p)"
  shows "Parameter_Load Map.empty (encode_pairs ps) = map_of (rev ps)"
proof (cases "ps = []")
  case True
  then show ?thesis
    by (simp add: Parameter_Load_def encode_pairs_def Split_def Let_def)
next
  case False
  from assms have "\<forall>x\<in>set (map entry ps). CHR '','' \<notin> set x"
    by (auto simp add: benign_def entry_def)
  with False have "split_from (CHR '','') [] (Join (map entry ps) (CHR '','')) =
                     ([] @ hd (map entry ps)) # tl (map entry ps)"
    by (intro split_from_Join) simp_all
  with False have "Split (encode_pairs ps) (CHR '','') = map entry ps"
    by (simp add: Split_def encode_pairs_def)
  moreover from assms have "\<forall>p\<in>set ps. CHR '':'' \<notin> set (fst p) \<and> CHR '':'' \<notin> set (snd p)"
    by (simp add: benign_def)
  ultimately show ?thesis by (simp add: Parameter_Load_def Load_loop_entries)
qed

lemma Load_loop_Some:
  "Load_loop m pieces n = Some v \<Longrightarrow>
     m n = Some v \<or>
     (\<exists>piece\<in>set pieces. n \<in> set (Split piece (CHR '':'')) \<and> v \<in> set (Split piece (CHR '':'')))"
proof (induction pieces arbitrary: m)
  case Nil
  then show ?case by simp
next
  case (Cons piece pieces)
  let ?variable = "Split piece (CHR '':'')"
  show ?case
  proof (cases "length ?variable \<noteq> 2")
    case True
    with Cons.prems have "Load_loop m pieces n = Some v" by (simp add: Let_def)
    from Cons.IH [OF this] show ?thesis by auto
  next
    case False
    with Cons.prems have "Load_loop (m(?variable ! 0 \<mapsto> ?variable ! 1)) pieces n = Some v"
      by (simp add: Let_def)
    from Cons.IH [OF this] show ?thesis
    proof
      assume a: "(m(?variable ! 0 \<mapsto> ?variable ! 1)) n = Some v"
      show ?thesis
      proof (cases "n = ?variable ! 0")
        case True
        with a have "v = ?variable ! 1" by simp
        moreover from False have "?variable ! 1 \<in> set ?variable" by (intro nth_mem) simp
        moreover from False have "?variable ! 0 \<in> set ?variable" by (intro nth_mem) simp
        ultimately show ?thesis using True by simp
      next
        case False
        with a show ?thesis by simp
      qed
    next
      assume "\<exists>piece\<in>set pieces.
                n \<in> set (Split piece (CHR '':'')) \<and> v \<in> set (Split piece (CHR '':''))"
      then show ?thesis by auto
    qed
  qed
qed

lemma Split_part_benign:
  assumes "piece \<in> set (Split source (CHR '',''))" and "x \<in> set (Split piece (CHR '':''))"
  shows "benign x"
proof -
  from assms(2) have "CHR '':'' \<notin> set x"
    using split_from_no_sep [of "CHR '':''" "[]" x piece] by (simp add: Split_def)
  moreover from assms(1) have "CHR '','' \<notin> set piece"
    using split_from_no_sep [of "CHR '',''" "[]" piece source] by (simp add: Split_def)
  then have "CHR '','' \<notin> set x"
    using assms(2) split_from_member [of x "CHR '':''" "[]" piece "CHR '',''"]
    by (auto simp add: Split_def)
  ultimately show ?thesis by (simp add: benign_def)
qed

lemma Load_entry_benign:
  assumes "Parameter_Load Map.empty source n = Some v"
  shows "benign n \<and> benign v"
proof -
  from Load_loop_Some [of Map.empty "Split source (CHR '','')" n v] assms
  obtain piece where "piece \<in> set (Split source (CHR '',''))"
    and "n \<in> set (Split piece (CHR '':''))" and "v \<in> set (Split piece (CHR '':''))"
    by (auto simp add: Parameter_Load_def)
  then show ?thesis using Split_part_benign by blast
qed

lemma Join_snoc: "xs \<noteq> [] \<Longrightarrow> Join (xs @ [y]) sep = Join xs sep @ sep # y"
  by (induction xs sep rule: Join.induct) simp_all

lemma Join_entries_empty: "Join (map entry ps) sep = [] \<longleftrightarrow> ps = []"
proof (cases ps)
  case Nil
  then show ?thesis by simp
next
  case (Cons p ps')
  then show ?thesis by (cases ps') (simp_all add: entry_def)
qed

lemma encode_pairs_snoc:
  "encode_pairs (acc @ [(n, v)]) =
     (if length (encode_pairs acc) = 0 then n @ '':'' @ v
      else encode_pairs acc @ '','' @ n @ '':'' @ v)"
proof (cases "acc = []")
  case True
  then show ?thesis by (simp add: encode_pairs_def entry_def)
next
  case False
  then have "Join (map entry acc @ [entry (n, v)]) (CHR '','') =
               Join (map entry acc) (CHR '','') @ CHR '','' # entry (n, v)"
    by (intro Join_snoc) simp
  with False show ?thesis by (simp add: encode_pairs_def Join_entries_empty entry_def)
qed

lemma ParseParameter_loop_encode:
  "fst (ParseParameter_loop p1 s2 k vs (encode_pairs acc)) =
     encode_pairs (acc @ extracted_pairs_loop p1 s2 k vs)"
proof (induction vs arbitrary: k acc)
  case Nil
  then show ?case by simp
next
  case (Cons v vs)
  have step: "fst (ParseParameter_loop p1 s2 (Suc k) vs (encode_pairs (acc @ [(n, x)]))) =
           encode_pairs (acc @ (n, x) # extracted_pairs_loop p1 s2 (Suc k) vs)" for n x
    using Cons.IH [of "Suc k" "acc @ [(n, x)]"] by simp
  consider (skip) "v = [] \<or> (hd v \<noteq> CHR '':'' \<and> hd v \<noteq> CHR ''*'')"
    | (colon) "v \<noteq> []" "hd v = CHR '':''" "k < length p1"
    | (star) "v \<noteq> []" "hd v = CHR ''*''" "k = s2 - 1" "k \<le> length p1"
    | (stop) "v \<noteq> []" "hd v = CHR '':'' \<and> \<not> k < length p1 \<or>
               hd v = CHR ''*'' \<and> (k \<noteq> s2 - 1 \<or> \<not> k \<le> length p1)"
    by (cases "v = []"; cases "hd v = CHR '':''"; cases "hd v = CHR ''*''";
        cases "k < length p1"; cases "k = s2 - 1"; cases "k \<le> length p1") simp_all
  then show ?case
  proof cases
    case skip
    then have "ParseParameter_loop p1 s2 k (v # vs) (encode_pairs acc) =
                 ParseParameter_loop p1 s2 (Suc k) vs (encode_pairs acc)"
      and "extracted_pairs_loop p1 s2 k (v # vs) = extracted_pairs_loop p1 s2 (Suc k) vs"
      by auto
    then show ?thesis using Cons.IH [of "Suc k" acc] by simp
  next
    case colon
    then have a: "ParseParameter_loop p1 s2 k (v # vs) (encode_pairs acc) =
                 ParseParameter_loop p1 s2 (Suc k) vs (encode_pairs (acc @ [(tl v, p1 ! k)]))"
      by (simp add: encode_pairs_snoc)
    from colon have b: "extracted_pairs_loop p1 s2 k (v # vs) =
                 (tl v, p1 ! k) # extracted_pairs_loop p1 s2 (Suc k) vs"
      by simp
    show ?thesis unfolding a b by (rule step)
  next
    case star
    let ?name = "if length v > 1 then tl v else ''catch''"
    from star have a: "ParseParameter_loop p1 s2 k (v # vs) (encode_pairs acc) =
                 (encode_pairs (acc @ [(?name, Join (drop k p1) (CHR ''/''))]), None)"
      by (simp add: encode_pairs_snoc Let_def)
    from star have b: "extracted_pairs_loop p1 s2 k (v # vs) =
                 [(?name, Join (drop k p1) (CHR ''/''))]"
      by simp
    show ?thesis unfolding a b by simp
  next
    case stop
    then have "fst (ParseParameter_loop p1 s2 k (v # vs) (encode_pairs acc)) = encode_pairs acc"
      and "extracted_pairs_loop p1 s2 k (v # vs) = []"
      by (auto simp add: Let_def)
    then show ?thesis by simp
  qed
qed

lemma ParseParameter_encode:
  "fst (ParseParameter match pattern) = encode_pairs (extracted_pairs match pattern)"
proof -
  have e: "encode_pairs [] = []" by (simp add: encode_pairs_def)
  show ?thesis
    using ParseParameter_loop_encode
      [of "Split match (CHR ''/'')" "length (Split pattern (CHR ''/''))" 0
          "Split pattern (CHR ''/'')" "[]"]
    by (simp add: ParseParameter_def extracted_pairs_def Let_def e)
qed

lemma GetParameter_header:
  "s \<noteq> [] \<Longrightarrow> GetParameter [headerName \<mapsto> s] = Some (Parameter_Load Map.empty s)"
  by (simp add: GetParameter_def Header_Get_def Let_def)

lemma Load_recovers_pair:
  assumes "\<forall>p\<in>set ps. benign (fst p) \<and> benign (snd p)"
    and "distinct (map fst ps)" and "(n, v) \<in> set ps"
  shows "Parameter_Load Map.empty (encode_pairs ps) n = Some v"
proof -
  from assms(2) have "distinct (map fst (rev ps))" by (simp add: rev_map [symmetric])
  moreover from assms(3) have "(n, v) \<in> set (rev ps)" by simp
  ultimately have "map_of (rev ps) n = Some v" by (rule map_of_is_SomeI)
  with Load_encode_pairs [OF assms(1)] show ?thesis by simp
qed

text \<open>
  C10. The specification says that loading an extraction result back recovers a pair exactly when
  its value contains neither \<^verbatim>\<open>:\<close> nor a comma. For the pattern \<^verbatim>\<open>/:a:b\<close> and the path
  \<^verbatim>\<open>/x\<close> the lookup succeeds and the only pair has the name \<^verbatim>\<open>a:b\<close> and the value \<^verbatim>\<open>x\<close>;
  the value has no separator, and still the loaded map has no entry for the name. For
  the pattern \<^verbatim>\<open>/:id/:id\<close> and the path \<^verbatim>\<open>/1/2\<close> the pair of \<^verbatim>\<open>id\<close> and \<^verbatim>\<open>1\<close> is
  overwritten by the later pair.
\<close>

theorem flat_encoding_counterexample:
  "Router_find (fst (Router_addRoute new_Router ''GET'' ''/:a:b'' (1::nat) [])) ''GET'' ''/x''
     = Inr (Some \<lparr>path = ''/:a:b'', handler = 1, middleware = []\<rparr>) \<and>
   ParseParameter ''/x'' ''/:a:b'' = (''a:b:x'', None) \<and>
   extracted_pairs ''/x'' ''/:a:b'' = [(''a:b'', ''x'')] \<and>
   benign ''x'' \<and>
   Parameter_Load Map.empty ''a:b:x'' ''a:b'' = None \<and>
   ParseParameter ''/1/2'' ''/:id/:id'' = (''id:1,id:2'', None) \<and>
   extracted_pairs ''/1/2'' ''/:id/:id'' = [(''id'', ''1''), (''id'', ''2'')] \<and>
   benign ''1'' \<and>
   Parameter_Load Map.empty ''id:1,id:2'' ''id'' = Some ''2''"
proof -
  have "Router_find (fst (Router_addRoute new_Router ''GET'' ''/:a:b'' (1::nat) [])) ''GET'' ''/x''
     = Inr (Some \<lparr>path = ''/:a:b'', handler = 1, middleware = []\<rparr>)"
    by (simp add: Router_find_one_route [OF GET_method] trie_defs)
  moreover have "ParseParameter ''/x'' ''/:a:b'' = (''a:b:x'', None)"
    by (simp add: extract_defs)
  moreover have "extracted_pairs ''/x'' ''/:a:b'' = [(''a:b'', ''x'')]"
    by (simp add: extracted_pairs_def Split_def Contains_def Let_def)
  moreover have "benign ''x''" "benign ''1''"
    by (simp_all add: benign_def)
  moreover have "Parameter_Load Map.empty ''a:b:x'' ''a:b'' = None"
    by (simp add: Parameter_Load_def Split_def Let_def)
  moreover have "ParseParameter ''/1/2'' ''/:id/:id'' = (''id:1,id:2'', None)"
    by (simp add: extract_defs)
  moreover have "extracted_pairs ''/1/2'' ''/:id/:id'' = [(''id'', ''1''), (''id'', ''2'')]"
    by (simp add: extracted_pairs_def Split_def Contains_def Let_def)
  moreover have "Parameter_Load Map.empty ''id:1,id:2'' ''id'' = Some ''2''"
    by (simp add: Parameter_Load_def Split_def Let_def)
  ultimately show ?thesis by (intro conjI)
qed

text \<open>
  C10, as the code has it. The result of \<^verbatim>\<open>ParseParameter\<close> is the encoding of the pairs
  it extracted. Loading it back gives a name a value only if neither of the two contains
  \<^verbatim>\<open>:\<close> or a comma. When no extracted name or value contains \<^verbatim>\<open>:\<close> or a comma, the loaded
  map gives every name the value of its last pair, so with pairwise distinct names every
  pair is recovered. For the path \<^verbatim>\<open>/hello/a:b\<close>, matched by \<^verbatim>\<open>/hello/*\<close>, the pair of
  \<^verbatim>\<open>catch\<close> and \<^verbatim>\<open>a:b\<close> is dropped: the handler's map is empty and it reads the empty
  string for the name.
\<close>

theorem flat_encoding_round_trip:
  "fst (ParseParameter match pattern) = encode_pairs (extracted_pairs match pattern) \<and>
   (Parameter_Load Map.empty (fst (ParseParameter match pattern)) name = Some v \<longrightarrow>
      benign name \<and> benign v) \<and>
   ((\<forall>p\<in>set (extracted_pairs match pattern). benign (fst p) \<and> benign (snd p)) \<longrightarrow>
      Parameter_Load Map.empty (fst (ParseParameter match pattern)) =
        map_of (rev (extracted_pairs match pattern))) \<and>
   ((\<forall>p\<in>set (extracted_pairs match pattern). benign (fst p) \<and> benign (snd p)) \<and>
    distinct (map fst (extracted_pairs match pattern)) \<and>
    (name, v) \<in> set (extracted_pairs match pattern) \<longrightarrow>
      Parameter_Load Map.empty (fst (ParseParameter match pattern)) name = Some v) \<and>
   (s \<noteq> [] \<longrightarrow> GetParameter [headerName \<mapsto> s] = Some (Parameter_Load Map.empty s)) \<and>
   (m \<in> set AllMethod \<longrightarrow>
      Router_find (fst (Router_addRoute new_Router m ''/hello/*'' h ws)) m ''/hello/a:b''
        = Inr (Some \<lparr>path = ''/hello/*'', handler = h, middleware = ws\<rparr>)) \<and>
   ParseParameter ''/hello/a:b'' ''/hello/*'' = (''catch:a:b'', None) \<and>
   extracted_pairs ''/hello/a:b'' ''/hello/*'' = [(''catch'', ''a:b'')] \<and>
   GetParameter [headerName \<mapsto> ''catch:a:b''] = Some Map.empty \<and>
   Parameter_Get (GetParameter [headerName \<mapsto> ''catch:a:b'']) ''catch'' = []"
proof -
  let ?s = "fst (ParseParameter match pattern)"
  let ?ps = "extracted_pairs match pattern"
  have a: "?s = encode_pairs ?ps" by (rule ParseParameter_encode)
  have b: "Parameter_Load Map.empty ?s name = Some v \<longrightarrow> benign name \<and> benign v"
    using Load_entry_benign by blast
  have c: "(\<forall>p\<in>set ?ps. benign (fst p) \<and> benign (snd p)) \<longrightarrow>
      Parameter_Load Map.empty ?s = map_of (rev ?ps)"
    unfolding a using Load_encode_pairs by blast
  have d: "(\<forall>p\<in>set ?ps. benign (fst p) \<and> benign (snd p)) \<and> distinct (map fst ?ps) \<and>
      (name, v) \<in> set ?ps \<longrightarrow> Parameter_Load Map.empty ?s name = Some v"
    unfolding a using Load_recovers_pair by blast
  have e: "s \<noteq> [] \<longrightarrow> GetParameter [headerName \<mapsto> s] = Some (Parameter_Load Map.empty s)"
    using GetParameter_header by blast
  have f: "m \<in> set AllMethod \<longrightarrow>
      Router_find (fst (Router_addRoute new_Router m ''/hello/*'' h ws)) m ''/hello/a:b''
        = Inr (Some \<lparr>path = ''/hello/*'', handler = h, middleware = ws\<rparr>)"
    by (simp add: Router_find_one_route trie_defs)
  have g: "ParseParameter ''/hello/a:b'' ''/hello/*'' = (''catch:a:b'', None)"
    by (simp add: extract_defs)
  have h: "extracted_pairs ''/hello/a:b'' ''/hello/*'' = [(''catch'', ''a:b'')]"
    by (simp add: extracted_pairs_def Split_def Contains_def Let_def)
  have i: "GetParameter [headerName \<mapsto> ''catch:a:b''] = Some Map.empty"
    by (simp add: GetParameter_def Header_Get_def Parameter_Load_def Split_def Let_def)
  have j: "Parameter_Get (GetParameter [headerName \<mapsto> ''catch:a:b'']) ''catch'' = []"
    unfolding i by (simp add: Parameter_Get_def)
  from a b c d e f g h i j show ?thesis by (intro conjI)
qed

theorem flat_encoding_round_trip_witness:
  "ParseParameter ''/u/7/x/y'' ''/u/:id/*rest'' = (''id:7,rest:x/y'', None) \<and>
   Parameter_Load Map.empty ''id:7,rest:x/y'' ''id'' = Some ''7'' \<and>
   Parameter_Load Map.empty ''id:7,rest:x/y'' ''rest'' = Some ''x/y'' \<and>
   benign ''7'' \<and>
   Parameter_Get (GetParameter [headerName \<mapsto> ''id:7,rest:x/y'']) ''rest'' = ''x/y'' \<and>
   Router_find (fst (Router_addRoute new_Router ''GET'' ''/hello/*'' (1::nat) [])) ''GET'' ''/hello/a:b''
     = Inr (Some \<lparr>path = ''/hello/*'', handler = 1, middleware = []\<rparr>)"
proof -
  note t1 = flat_encoding_round_trip
    [where match = "''/u/7/x/y''" and pattern = "''/u/:id/*rest''" and name = "''id''"
       and v = "''7''" and s = "''id:7,rest:x/y''" and m = "''GET''" and h = "1::nat"
       and ws = "[]"]
  note t2 = flat_encoding_round_trip
    [where match = "''/u/7/x/y''" and pattern = "''/u/:id/*rest''" and name = "''rest''"
       and v = "''x/y''" and s = "''id:7,rest:x/y''" and m = "''GET''" and h = "1::nat"
       and ws = "[]"]
  have pp: "ParseParameter ''/u/7/x/y'' ''/u/:id/*rest'' = (''id:7,rest:x/y'', None)"
    by (simp add: extract_defs)
  have ps: "extracted_pairs ''/u/7/x/y'' ''/u/:id/*rest'' = [(''id'', ''7''), (''rest'', ''x/y'')]"
    by (simp add: extracted_pairs_def Split_def Contains_def Let_def)
  have hyp1: "(\<forall>p\<in>set (extracted_pairs ''/u/7/x/y'' ''/u/:id/*rest''). benign (fst p) \<and> benign (snd p)) \<and>
      distinct (map fst (extracted_pairs ''/u/7/x/y'' ''/u/:id/*rest'')) \<and>
      (''id'', ''7'') \<in> set (extracted_pairs ''/u/7/x/y'' ''/u/:id/*rest'')"
    unfolding ps by (simp add: benign_def)
  have hyp2: "(\<forall>p\<in>set (extracted_pairs ''/u/7/x/y'' ''/u/:id/*rest''). benign (fst p) \<and> benign (snd p)) \<and>
      distinct (map fst (extracted_pairs ''/u/7/x/y'' ''/u/:id/*rest'')) \<and>
      (''rest'', ''x/y'') \<in> set (extracted_pairs ''/u/7/x/y'' ''/u/:id/*rest'')"
    unfolding ps by (simp add: benign_def)
  note r1 = t1 [THEN conjunct2, THEN conjunct2, THEN conjunct2, THEN conjunct1, THEN mp, OF hyp1]
  note r2 = t2 [THEN conjunct2, THEN conjunct2, THEN conjunct2, THEN conjunct1, THEN mp, OF hyp2]
  note b1 = t1 [THEN conjunct2, THEN conjunct1, THEN mp, OF r1, THEN conjunct2]
  have ne: "''id:7,rest:x/y'' \<noteq> []" by simp
  note g1 = t1 [THEN conjunct2, THEN conjunct2, THEN conjunct2, THEN conjunct2, THEN conjunct1,
                THEN mp, OF ne]
  note f1 = t1 [THEN conjunct2, THEN conjunct2, THEN conjunct2, THEN conjunct2, THEN conjunct2,
                THEN conjunct1, THEN mp, OF GET_method]
  have l1: "Parameter_Load Map.empty ''id:7,rest:x/y'' ''id'' = Some ''7''"
    using r1 unfolding pp by simp
  have l2: "Parameter_Load Map.empty ''id:7,rest:x/y'' ''rest'' = Some ''x/y''"
    using r2 unfolding pp by simp
  have "Parameter_Get (GetParameter [headerName \<mapsto> ''id:7,rest:x/y'']) ''rest'' = ''x/y''"
    unfolding g1 using l2 by (simp add: Parameter_Get_def)
  with pp l1 l2 b1 f1 show ?thesis by (intro conjI)
qed

end
